theory Spec2Isabelle
  imports Main "HOL-Library.Sublist"
begin

section \<open>Label printer: the text-fitting core of \<^verbatim>\<open>qr_labels.py\<close>\<close>

text \<open>
  The program builds one label record per \<^verbatim>\<open>url~caption\<close> token: the caption is cut at
  the token \<^verbatim>\<open>#%\<close>, each fragment is wrapped by \<^verbatim>\<open>textwrap.wrap\<close> (\<^verbatim>\<open>break_word\<close>) or
  cut every \<^verbatim>\<open>max_len\<close> characters (\<^verbatim>\<open>break_any\<close>, \<^verbatim>\<open>chunk_str\<close>), and the number of
  lines is checked against the template.

  Conventions of the model.
  \<^item> A Python \<^verbatim>\<open>str\<close> is a \<^typ>\<open>string\<close>; a \<^typ>\<open>char\<close> stands for the code point of the
    same number, so the model covers the captions over U+0000 to U+00FF. \<^verbatim>\<open>len\<close> is
    \<^const>\<open>length\<close>.
  \<^item> Python integers (\<^verbatim>\<open>text_line_max_len\<close>, \<^verbatim>\<open>max_text_lines\<close>) are \<^typ>\<open>int\<close>.
  \<^item> Every \<^verbatim>\<open>raise\<close> is a value \<open>Inl e\<close> of the type \<open>error + 'a\<close>.
  \<^item> The global \<^verbatim>\<open>_args.break_on_any\<close> and the clock (\<^verbatim>\<open>datetime.now()\<close>) are
    arguments of the functions that read them.
\<close>

subsection \<open>Errors\<close>

datatype error =
    TextTooLong string       \<comment> \<open>\<^verbatim>\<open>ValueError(f'Text too long: {text}')\<close>\<close>
  | InvalidWidth int         \<comment> \<open>\<^verbatim>\<open>ValueError("invalid width %r (must be > 0)")\<close> of textwrap\<close>
  | ZeroDivisionError        \<comment> \<open>\<^verbatim>\<open>len(cstr) / max_len\<close> with \<^verbatim>\<open>max_len == 0\<close>\<close>
  | InvalidData string       \<comment> \<open>\<^verbatim>\<open>ValueError(f'Invalid data: {data_str}')\<close>\<close>
  | InvalidDataEmpty         \<comment> \<open>\<^verbatim>\<open>ValueError('Invalid data')\<close>\<close>
  | InvalidUrl string        \<comment> \<open>\<^verbatim>\<open>ValueError(f'Invalid url: {url}')\<close>\<close>

subsection \<open>The string operations of Python that the source calls\<close>

definition py_isspace :: "char \<Rightarrow> bool" where
  \<comment> \<open>\<^verbatim>\<open>str.isspace\<close> on one character: code points 9-13, 28-32, 133 and 160.\<close>
  "py_isspace c =
     (let n = (of_char c :: nat)
      in (9 \<le> n \<and> n \<le> 13) \<or> (28 \<le> n \<and> n \<le> 32) \<or> n = 133 \<or> n = 160)"

abbreviation (input) nonspace :: "char \<Rightarrow> bool" where
  "nonspace \<equiv> (\<lambda>c. \<not> py_isspace c)"

definition rstrip :: "string \<Rightarrow> string" where
  \<comment> \<open>\<^verbatim>\<open>s.rstrip()\<close>: the trailing whitespace is removed.\<close>
  "rstrip s = rev (dropWhile py_isspace (rev s))"

definition all_space :: "string \<Rightarrow> bool" where
  \<comment> \<open>\<^verbatim>\<open>s.strip() == ''\<close>: the string is empty or whitespace only.\<close>
  "all_space s = list_all py_isspace s"

definition startswith_space :: "string \<Rightarrow> bool" where
  \<comment> \<open>\<^verbatim>\<open>s.startswith(' ')\<close>\<close>
  "startswith_space s = (case s of [] \<Rightarrow> False | c # _ \<Rightarrow> c = CHR '' '')"

fun contains :: "string \<Rightarrow> string \<Rightarrow> bool" where
  \<comment> \<open>\<^verbatim>\<open>sub in s\<close>\<close>
  "contains sub [] = (sub = [])"
| "contains sub (c # cs) = (prefix sub (c # cs) \<or> contains sub cs)"

fun split_acc :: "string \<Rightarrow> string \<Rightarrow> string \<Rightarrow> string list" where
  \<comment> \<open>The scan of \<^verbatim>\<open>s.split(sep)\<close>, left to right, for a non-empty separator: \<open>acc\<close> holds
      the characters of the current piece, last one first.\<close>
  "split_acc sep acc [] = [rev acc]"
| "split_acc sep acc (c # cs) =
     (if sep \<noteq> [] \<and> prefix sep (c # cs)
      then rev acc # split_acc sep [] (drop (length sep - 1) cs)
      else split_acc sep (c # acc) cs)"

definition py_split :: "string \<Rightarrow> string \<Rightarrow> string list" where
  \<comment> \<open>\<^verbatim>\<open>s.split(sep)\<close>. Both separators of the source, \<^verbatim>\<open>'#%'\<close> and \<^verbatim>\<open>'~'\<close>, are non-empty
      constants (Python raises on an empty one).\<close>
  "py_split s sep = split_acc sep [] s"

fun py_join :: "string \<Rightarrow> string list \<Rightarrow> string" where
  \<comment> \<open>\<^verbatim>\<open>sep.join(ls)\<close>\<close>
  "py_join sep [] = []"
| "py_join sep [l] = l"
| "py_join sep (l # ls) = l @ sep @ py_join sep ls"

subsection \<open>\<^verbatim>\<open>chunk_str\<close>\<close>

definition line_break :: string where
  "line_break = ''#%''"

definition chunk_at :: "string \<Rightarrow> nat \<Rightarrow> nat \<Rightarrow> string" where
  \<comment> \<open>The body of the loop of \<^verbatim>\<open>chunk_str\<close> at index \<open>idx\<close>: the slice
      \<^verbatim>\<open>cstr[idx * max_len : idx * max_len + max_len]\<close>, right-stripped, and without its
      first character when \<open>idx \<noteq> 0\<close> and that character is a space.\<close>
  "chunk_at cstr max_len idx =
     (let i = rstrip (take max_len (drop (idx * max_len) cstr))
      in if idx \<noteq> 0 \<and> startswith_space i then drop 1 i else i)"

definition py_ceil_div :: "nat \<Rightarrow> int \<Rightarrow> int" where
  \<comment> \<open>\<^verbatim>\<open>ceil(a / b)\<close> for a length \<open>a\<close> below \<open>2^53\<close> and an integer \<open>b \<noteq> 0\<close>. The quotient of
      two integers is the real quotient rounded to the nearest double. Rounding does not
      reach the next integer for \<open>a < 2^53\<close>, so the ceiling is the integer ceiling
      \<open>- (- a div b)\<close>, with one exception: a positive quotient of at most \<open>2^-1075\<close> is
      rounded to \<open>0.0\<close> (half of the smallest positive double, ties to even), and its
      ceiling is 0 where the integer ceiling is 1.\<close>
  "py_ceil_div a b =
     (if 0 < b \<and> int a * 2 ^ 1075 \<le> b then 0 else - ((- int a) div b))"

definition chunk_str :: "string \<Rightarrow> int \<Rightarrow> error + string list" where
  \<comment> \<open>\<^verbatim>\<open>chunks = ceil(len(cstr) / max_len)\<close>; \<^verbatim>\<open>range(0, chunks)\<close> is empty when
      \<^verbatim>\<open>chunks \<le> 0\<close>, which is the case for every negative \<^verbatim>\<open>max_len\<close>. Strings are shorter
      than \<open>2^53\<close> characters.\<close>
  "chunk_str cstr max_len =
     (if max_len = 0 then Inl ZeroDivisionError
      else let chunks = py_ceil_div (length cstr) max_len
           in Inr (map (chunk_at cstr (nat max_len)) [0 ..< nat chunks]))"

subsection \<open>\<^verbatim>\<open>textwrap.wrap\<close> with its default options\<close>

text \<open>
  \<^verbatim>\<open>break_word\<close> calls \<^verbatim>\<open>textwrap.wrap(line, width)\<close> of the Python standard library
  (\<^verbatim>\<open>textwrap.py\<close> of CPython 3.11), with every option at its default:
  \<^verbatim>\<open>expand_tabs\<close>, \<^verbatim>\<open>replace_whitespace\<close>, \<^verbatim>\<open>drop_whitespace\<close>, \<^verbatim>\<open>break_long_words\<close> and
  \<^verbatim>\<open>break_on_hyphens\<close> are true, \<^verbatim>\<open>tabsize\<close> is 8, both indents are empty,
  \<^verbatim>\<open>fix_sentence_endings\<close> is false and \<^verbatim>\<open>max_lines\<close> is \<^verbatim>\<open>None\<close>. The model follows the
  methods of \<^verbatim>\<open>TextWrapper\<close> under these options.
\<close>

fun expandtabs :: "nat \<Rightarrow> nat \<Rightarrow> string \<Rightarrow> string" where
  \<comment> \<open>\<^verbatim>\<open>text.expandtabs(tabsize)\<close>; \<open>j\<close> is the current column.\<close>
  "expandtabs tabsize j [] = []"
| "expandtabs tabsize j (c # cs) =
     (if c = CHR 0x09 then
        (if 0 < tabsize
         then replicate (tabsize - j mod tabsize) CHR '' ''
                @ expandtabs tabsize (j + (tabsize - j mod tabsize)) cs
         else expandtabs tabsize j cs)
      else c # expandtabs tabsize (if c = CHR 0x0A \<or> c = CHR 0x0D then 0 else j + 1) cs)"

definition whitespace :: string where
  \<comment> \<open>\<^verbatim>\<open>_whitespace = '\t\n\x0b\x0c\r '\<close>\<close>
  "whitespace = [CHR 0x09, CHR 0x0A, CHR 0x0B, CHR 0x0C, CHR 0x0D, CHR '' '']"

definition is_ws :: "char \<Rightarrow> bool" where
  \<comment> \<open>The class \<^verbatim>\<open>[\t\n\x0b\x0c\r\ ]\<close> of \<^verbatim>\<open>wordsep_re\<close>.\<close>
  "is_ws c = (c \<in> set whitespace)"

definition munge_whitespace :: "string \<Rightarrow> string" where
  \<comment> \<open>\<^verbatim>\<open>_munge_whitespace\<close>: tabs expanded, then every whitespace character replaced by
      a space.\<close>
  "munge_whitespace txt =
     map (\<lambda>c. if is_ws c then CHR '' '' else c) (expandtabs 8 0 txt)"

definition is_digit :: "char \<Rightarrow> bool" where
  \<comment> \<open>\<^verbatim>\<open>\d\<close> on the code points below 256.\<close>
  "is_digit c = (let n = (of_char c :: nat) in 48 \<le> n \<and> n \<le> 57)"

definition is_word_char :: "char \<Rightarrow> bool" where
  \<comment> \<open>\<^verbatim>\<open>\w\<close> on the code points below 256: the alphanumeric characters and the underscore.\<close>
  "is_word_char c =
     (let n = (of_char c :: nat)
      in (48 \<le> n \<and> n \<le> 57) \<or> (65 \<le> n \<and> n \<le> 90) \<or> n = 95 \<or> (97 \<le> n \<and> n \<le> 122)
         \<or> n = 170 \<or> n = 178 \<or> n = 179 \<or> n = 181 \<or> n = 185 \<or> n = 186
         \<or> (188 \<le> n \<and> n \<le> 190) \<or> (192 \<le> n \<and> n \<le> 214) \<or> (216 \<le> n \<and> n \<le> 246)
         \<or> (248 \<le> n \<and> n \<le> 255))"

definition is_letter :: "char \<Rightarrow> bool" where
  \<comment> \<open>\<^verbatim>\<open>letter = [^\d\W]\<close>\<close>
  "is_letter c = (is_word_char c \<and> \<not> is_digit c)"

definition is_word_punct :: "char \<Rightarrow> bool" where
  \<comment> \<open>\<^verbatim>\<open>word_punct = [\w!"'&.,?]\<close>\<close>
  "is_word_punct c =
     (is_word_char c
      \<or> c \<in> set [CHR ''!'', CHR 0x22, CHR 0x27, CHR ''&'', CHR ''.'', CHR '','', CHR ''?''])"

definition is_hyphen :: "char \<Rightarrow> bool" where
  "is_hyphen c = (c = CHR ''-'')"

definition hyphen_behind :: "string \<Rightarrow> bool" where
  \<comment> \<open>The lookbehinds \<^verbatim>\<open>(?<=letter{2}-) | (?<=letter-letter-)\<close> just after a hyphen; the
      argument is the text before that hyphen, nearest character first.\<close>
  "hyphen_behind bef =
     (case bef of
        a # b # r \<Rightarrow>
          is_letter a \<and> (is_letter b \<or> (is_hyphen b \<and> (case r of [] \<Rightarrow> False | c # _ \<Rightarrow> is_letter c)))
      | _ \<Rightarrow> False)"

definition hyphen_ahead :: "string \<Rightarrow> bool" where
  \<comment> \<open>The lookahead \<^verbatim>\<open>(?= letter -? letter)\<close> just after a hyphen.\<close>
  "hyphen_ahead s =
     (case s of
        a # b # r \<Rightarrow>
          is_letter a \<and> ((is_hyphen b \<and> (case r of [] \<Rightarrow> False | c # _ \<Rightarrow> is_letter c)) \<or> is_letter b)
      | _ \<Rightarrow> False)"

definition emdash_ahead :: "string \<Rightarrow> bool" where
  \<comment> \<open>\<^verbatim>\<open>-{2,}\w\<close> matches at the start of \<open>s\<close>: a run of at least two hyphens, all of it,
      followed by a word character.\<close>
  "emdash_ahead s =
     (2 \<le> length (takeWhile is_hyphen s)
      \<and> (case dropWhile is_hyphen s of [] \<Rightarrow> False | c # _ \<Rightarrow> is_word_char c))"

definition word_punct_behind :: "string \<Rightarrow> bool" where
  \<comment> \<open>The lookbehind \<^verbatim>\<open>(?<=word_punct)\<close>; the argument is the text before the position,
      nearest character first.\<close>
  "word_punct_behind bef = (case bef of [] \<Rightarrow> False | p # _ \<Rightarrow> is_word_punct p)"

fun scan_word :: "string \<Rightarrow> string \<Rightarrow> string \<Rightarrow> string \<times> string" where
  \<comment> \<open>The third alternative of \<^verbatim>\<open>wordsep_re\<close>, a word: the lazy \<^verbatim>\<open>[^whitespace]+?\<close> has
      taken the characters \<open>acc\<close> (last one first) and takes one more character as long as
      none of the three endings matches here: a hyphen inside a hyphenated word (the
      hyphen belongs to the chunk), the end of the word, or an em-dash ahead.
      \<open>bef\<close> is all the text before the position, nearest character first.\<close>
  "scan_word bef acc [] = (rev acc, [])"
| "scan_word bef acc (c # cs) =
     (if is_hyphen c \<and> hyphen_behind bef \<and> hyphen_ahead cs then (rev (c # acc), cs)
      else if is_ws c then (rev acc, c # cs)
      else if word_punct_behind bef \<and> emdash_ahead (c # cs) then (rev acc, c # cs)
      else scan_word (c # bef) (c # acc) cs)"

fun next_chunk :: "string \<Rightarrow> string \<Rightarrow> string \<times> string" where
  \<comment> \<open>One match of \<^verbatim>\<open>wordsep_re\<close> at the start of a non-empty rest, and what is left:
      a run of whitespace, or an em-dash between words, or a word.\<close>
  "next_chunk bef [] = ([], [])"
| "next_chunk bef (c # cs) =
     (if is_ws c then (takeWhile is_ws (c # cs), dropWhile is_ws (c # cs))
      else if word_punct_behind bef \<and> emdash_ahead (c # cs)
           then (takeWhile is_hyphen (c # cs), dropWhile is_hyphen (c # cs))
      else scan_word (c # bef) [c] cs)"

function split_chunks :: "string \<Rightarrow> string \<Rightarrow> string list" where
  \<comment> \<open>The matches of \<^verbatim>\<open>wordsep_re.split(text)\<close> in order. The pattern matches a non-empty
      string at every position of a non-empty rest, so the pieces between two matches are
      all empty and the matches are the chunks.\<close>
  "split_chunks bef [] = []"
| "split_chunks bef (c # cs) =
     (case next_chunk bef (c # cs) of
        (chunk, rest) \<Rightarrow> chunk # split_chunks (rev chunk @ bef) rest)"
  by pat_completeness auto
termination
proof (relation "measure (\<lambda>(bef, s). length s)")
  have scan: "length (snd (scan_word bef acc cs)) \<le> length cs" for bef acc cs
    by (induction bef acc cs rule: scan_word.induct) auto
  have dw: "length (dropWhile P xs) \<le> length xs" for P and xs :: string
    by (induction xs) auto
  fix bef :: string and c cs chunk rest
  assume "(chunk, rest) = next_chunk bef (c # cs)"
  then have r: "rest = snd (next_chunk bef (c # cs))"
    by (metis snd_conv)
  have "length (snd (next_chunk bef (c # cs))) \<le> length cs"
    using scan [of "c # bef" "[c]" cs] dw [of is_hyphen cs] dw [of is_ws cs]
    by (auto simp: emdash_ahead_def is_hyphen_def split: if_splits)
  with r show "((rev chunk @ bef, rest), (bef, c # cs)) \<in> measure (\<lambda>(bef, s). length s)"
    by simp
qed simp

definition split :: "string \<Rightarrow> string list" where
  \<comment> \<open>\<^verbatim>\<open>_split\<close>: \<^verbatim>\<open>[c for c in wordsep_re.split(text) if c]\<close>\<close>
  "split txt = filter (\<lambda>c. c \<noteq> []) (split_chunks [] txt)"

fun fill_line :: "int \<Rightarrow> string list \<Rightarrow> nat \<Rightarrow> string list \<Rightarrow> string list \<times> nat \<times> string list" where
  \<comment> \<open>The inner \<^verbatim>\<open>while chunks:\<close> of \<^verbatim>\<open>_wrap_chunks\<close>. Python keeps the chunks reversed and
      pops from the end; here the list is in text order and its head is \<^verbatim>\<open>chunks[-1]\<close>.\<close>
  "fill_line width cur_line cur_len [] = (cur_line, cur_len, [])"
| "fill_line width cur_line cur_len (c # cs) =
     (if int (cur_len + length c) \<le> width
      then fill_line width (cur_line @ [c]) (cur_len + length c) cs
      else (cur_line, cur_len, c # cs))"

definition slice_end :: "string \<Rightarrow> int \<Rightarrow> nat" where
  \<comment> \<open>The position a slice bound \<open>e\<close> denotes in \<open>s\<close>: a negative bound counts from the
      end, and the result is clipped to the string.\<close>
  "slice_end s e = min (length s) (nat (if e < 0 then int (length s) + e else e))"

definition rfind :: "char \<Rightarrow> string \<Rightarrow> int \<Rightarrow> int" where
  \<comment> \<open>\<^verbatim>\<open>s.rfind(ch, 0, e)\<close>: the highest index below the bound that holds \<open>ch\<close>, or \<open>-1\<close>.\<close>
  "rfind ch s e = int (length (dropWhile (\<lambda>c. c \<noteq> ch) (rev (take (slice_end s e) s)))) - 1"

definition handle_long_word ::
  "string list \<Rightarrow> string list \<Rightarrow> nat \<Rightarrow> int \<Rightarrow> string list \<times> string list" where
  \<comment> \<open>\<^verbatim>\<open>_handle_long_word(reversed_chunks, cur_line, cur_len, width)\<close> with
      \<^verbatim>\<open>break_long_words\<close> and \<^verbatim>\<open>break_on_hyphens\<close>; returns the new \<^verbatim>\<open>cur_line\<close> and
      chunks. It is called with a non-empty list of chunks only.\<close>
  "handle_long_word chunks cur_line cur_len width =
     (case chunks of
        [] \<Rightarrow> (cur_line, chunks)
      | chunk # cs \<Rightarrow>
          let space_left = (if width < 1 then 1 else width - int cur_len);
              hyphen = rfind CHR ''-'' chunk space_left;
              end' = (if int (length chunk) > space_left \<and> hyphen > 0
                         \<and> list_ex (\<lambda>c. c \<noteq> CHR ''-'') (take (nat hyphen) chunk)
                      then hyphen + 1 else space_left)
          in (cur_line @ [take (slice_end chunk end') chunk],
              drop (slice_end chunk end') chunk # cs))"

definition one_line :: "int \<Rightarrow> bool \<Rightarrow> string list \<Rightarrow> string list \<times> string list" where
  \<comment> \<open>The body of the outer \<^verbatim>\<open>while chunks:\<close> of \<^verbatim>\<open>_wrap_chunks\<close>, for a non-empty list of
      chunks; \<open>started\<close> says that \<^verbatim>\<open>lines\<close> is not empty. Returns the chunks of the
      current line and the chunks left.\<close>
  "one_line width started chunks =
     (let chunks1 = (if all_space (hd chunks) \<and> started then tl chunks else chunks);
          (cur_line, cur_len, chunks2) = fill_line width [] 0 chunks1;
          (cur_line2, chunks3) =
            (if chunks2 \<noteq> [] \<and> int (length (hd chunks2)) > width
             then handle_long_word chunks2 cur_line cur_len width
             else (cur_line, chunks2));
          cur_line3 = (if cur_line2 \<noteq> [] \<and> all_space (last cur_line2)
                       then butlast cur_line2 else cur_line2)
      in (cur_line3, chunks3))"

definition weight :: "string list \<Rightarrow> nat" where
  \<comment> \<open>What the outer loop of \<^verbatim>\<open>_wrap_chunks\<close> makes smaller: the characters and the
      chunks left.\<close>
  "weight chunks = sum_list (map length chunks) + length chunks"

function wrap_chunks :: "int \<Rightarrow> string list \<Rightarrow> string list \<Rightarrow> error + string list" where
  \<comment> \<open>\<^verbatim>\<open>_wrap_chunks\<close>: the check of the width, which Python makes once before the loop
      (the width never changes), and the outer \<^verbatim>\<open>while chunks:\<close>.\<close>
  "wrap_chunks width lines chunks =
     (if width \<le> 0 then Inl (InvalidWidth width)
      else if chunks = [] then Inr lines
      else case one_line width (lines \<noteq> []) chunks of
             (cur_line, rest) \<Rightarrow>
               wrap_chunks width (if cur_line \<noteq> [] then lines @ [concat cur_line] else lines) rest)"
  by pat_completeness auto
termination
proof (relation "measure (\<lambda>(width, lines, chunks). weight chunks)")
  have fill: "\<exists>taken. cl' = cl @ taken \<and> cs = taken @ cs' \<and> (taken = [] \<longrightarrow> cs \<noteq> [] \<longrightarrow> int (n + length (hd cs)) > w)"
    if "fill_line w cl n cs = (cl', n', cs')" for w cl n cs cl' n' cs'
    using that by (induction w cl n cs rule: fill_line.induct) (auto split: if_splits)
  have hlw: "weight (snd (handle_long_word c2 cl n w)) \<le> weight c2" for c2 cl n w
    by (auto simp: handle_long_word_def weight_def Let_def split: list.splits)
  have hlw_strict: "weight (snd (handle_long_word (c # cs) [] 0 w)) < weight (c # cs)"
    if "0 < w" "int (length c) > w" for c cs w
  proof -
    have "0 < slice_end c (if int (length c) > w \<and> rfind CHR ''-'' c w > 0
                         \<and> list_ex (\<lambda>c. c \<noteq> CHR ''-'') (take (nat (rfind CHR ''-'' c w)) c)
                      then rfind CHR ''-'' c w + 1 else w)"
      using that by (auto simp: slice_end_def)
    then show ?thesis using that
      by (auto simp: handle_long_word_def weight_def Let_def)
  qed
  have main: "weight (snd (one_line w st chunks)) < weight chunks" if pos: "0 < w" and ne: "chunks \<noteq> []" for w st chunks
  proof -
    obtain c cs where ch: "chunks = c # cs" using ne by (cases chunks) auto
    define chunks1 where "chunks1 = (if all_space (hd chunks) \<and> st then tl chunks else chunks)"
    obtain cl n c2 where fl: "fill_line w [] 0 chunks1 = (cl, n, c2)"
      by (metis prod_cases3)
    from fill [OF fl] have tk: "chunks1 = cl @ c2" and nt: "cl = [] \<longrightarrow> chunks1 \<noteq> [] \<longrightarrow> int (length (hd chunks1)) > w"
      by auto
    define r where "r = (if c2 \<noteq> [] \<and> int (length (hd c2)) > w
             then handle_long_word c2 cl n w else (cl, c2))"
    have snd_r: "weight (snd r) \<le> weight c2"
      using hlw [of c2 cl n w] by (simp add: r_def)
    have ol: "snd (one_line w st chunks) = snd r"
      by (simp add: one_line_def chunks1_def [symmetric] fl r_def [symmetric] Let_def split: prod.splits)
    have w12: "weight c2 \<le> weight chunks1" by (simp add: tk weight_def)
    show ?thesis
    proof (cases "chunks1 = chunks")
      case False
      then have "chunks1 = cs" by (auto simp: chunks1_def ch split: if_splits)
      then have "weight chunks1 < weight chunks" by (simp add: ch weight_def)
      with snd_r w12 ol show ?thesis by simp
    next
      case True
      show ?thesis
      proof (cases "cl = []")
        case False
        then have "weight c2 < weight chunks1" by (cases cl) (auto simp: tk weight_def)
        with snd_r ol True show ?thesis by simp
      next
        case cle: True
        then have c2: "c2 = c # cs" and big: "int (length c) > w" using tk nt True ch by auto
        have n0: "n = 0" using fl cle c2 True ch big by (auto split: if_splits)
        have "r = handle_long_word (c # cs) [] 0 w" by (simp add: r_def c2 big cle n0)
        with hlw_strict [OF pos big, of cs] ol ch show ?thesis by simp
      qed
    qed
  qed
  fix width :: int and lines chunks :: "string list" and cur_line rest
  assume "\<not> width \<le> 0" "chunks \<noteq> []" "(cur_line, rest) = one_line width (lines \<noteq> []) chunks"
  then show "((width, if cur_line \<noteq> [] then lines @ [concat cur_line] else lines, rest), (width, lines, chunks))
     \<in> measure (\<lambda>(width, lines, chunks). weight chunks)"
    using main [of width chunks "lines \<noteq> []"] by (auto dest: arg_cong [where f = snd])
qed simp

definition wrap :: "string \<Rightarrow> int \<Rightarrow> error + string list" where
  \<comment> \<open>\<^verbatim>\<open>textwrap.wrap(text, width)\<close>\<close>
  "wrap txt width = wrap_chunks width [] (split (munge_whitespace txt))"

subsection \<open>The label record\<close>

record LabelMeta =
  \<comment> \<open>The field \<^verbatim>\<open>specs\<close> (the geometry of the sheet, read by the layout library only) is
      left out.\<close>
  font :: string
  font_size :: int
  subtext_font_size :: int
  text_line_max_len :: int
  max_text_lines :: int
  qr_text_pad :: int
  include_timestamp :: bool

record LabelLine =
  line_text :: string       \<comment> \<open>\<^verbatim>\<open>text\<close>\<close>
  font_name :: string
  line_font_size :: int     \<comment> \<open>\<^verbatim>\<open>font_size\<close>\<close>

record LabelData =
  url :: string
  lines :: "LabelLine list"
  meta :: LabelMeta

definition avery_5160 :: LabelMeta where
  \<comment> \<open>\<^verbatim>\<open>_label_meta['avery-5160']\<close>, with \<^verbatim>\<open>_default_font = 'Roboto'\<close> and
      \<^verbatim>\<open>_default_font_size = 9\<close>.\<close>
  "avery_5160 =
     \<lparr>font = ''Roboto'', font_size = 9, subtext_font_size = 9 - 3, text_line_max_len = 21,
      max_text_lines = 4, qr_text_pad = 3, include_timestamp = True\<rparr>"

definition text_lines :: "string \<Rightarrow> string list" where
  \<comment> \<open>Lines 73 to 76 of \<^verbatim>\<open>LabelData.__init__\<close>.\<close>
  "text_lines txt =
     (if contains line_break txt then map rstrip (py_split txt line_break)
      else [rstrip txt])"

fun break_word :: "int \<Rightarrow> string list \<Rightarrow> error + string list" where
  \<comment> \<open>\<^verbatim>\<open>break_word(lines)\<close>; the first argument is \<^verbatim>\<open>label_meta.text_line_max_len\<close>. The
      first call of \<^verbatim>\<open>textwrap.wrap\<close> that raises ends the loop.\<close>
  "break_word max_len [] = Inr []"
| "break_word max_len (line # rest) =
     (case wrap line max_len of
        Inl e \<Rightarrow> Inl e
      | Inr w \<Rightarrow> (case break_word max_len rest of Inl e \<Rightarrow> Inl e | Inr ws \<Rightarrow> Inr (w @ ws)))"

fun break_any :: "int \<Rightarrow> string list \<Rightarrow> error + string list" where
  \<comment> \<open>\<^verbatim>\<open>break_any(lines)\<close>; the first argument is \<^verbatim>\<open>label_meta.text_line_max_len\<close>.\<close>
  "break_any max_len [] = Inr []"
| "break_any max_len (line # rest) =
     (case (if int (length line) \<le> max_len then Inr [line] else chunk_str line max_len) of
        Inl e \<Rightarrow> Inl e
      | Inr w \<Rightarrow> (case break_any max_len rest of Inl e \<Rightarrow> Inl e | Inr ws \<Rightarrow> Inr (w @ ws)))"

definition broken_lines :: "bool \<Rightarrow> LabelMeta \<Rightarrow> string \<Rightarrow> error + string list" where
  \<comment> \<open>Lines 94 to 103 of \<^verbatim>\<open>LabelData.__init__\<close>: the choice of the strategy, the fallback and
      the check of the number of lines.\<close>
  "broken_lines break_on_any label_meta txt =
     (case (if break_on_any then break_any (text_line_max_len label_meta) (text_lines txt)
            else (case break_word (text_line_max_len label_meta) (text_lines txt) of
                    Inl e \<Rightarrow> Inl e
                  | Inr w \<Rightarrow>
                      if int (length w) > max_text_lines label_meta
                      then break_any (text_line_max_len label_meta) (text_lines txt)
                      else Inr w)) of
        Inl e \<Rightarrow> Inl e
      | Inr b \<Rightarrow> if int (length b) > max_text_lines label_meta then Inl (TextTooLong txt) else Inr b)"

definition LabelData_init ::
  "bool \<Rightarrow> string \<Rightarrow> string \<Rightarrow> string \<Rightarrow> LabelMeta \<Rightarrow> error + LabelData" where
  \<comment> \<open>\<^verbatim>\<open>LabelData.__init__(url, text, label_meta)\<close>; \<open>break_on_any\<close> is the global
      \<^verbatim>\<open>_args.break_on_any\<close> and \<open>today\<close> is \<^verbatim>\<open>datetime.now().strftime("%y-%m-%d")\<close>.\<close>
  "LabelData_init break_on_any today u txt label_meta =
     (case broken_lines break_on_any label_meta txt of
        Inl e \<Rightarrow> Inl e
      | Inr b \<Rightarrow>
          Inr \<lparr>url = u,
               lines = map (\<lambda>line. \<lparr>line_text = line, font_name = font label_meta,
                                     line_font_size = font_size label_meta\<rparr>) b
                       @ (if include_timestamp label_meta
                          then [\<lparr>line_text = today, font_name = font label_meta,
                                 line_font_size = subtext_font_size label_meta\<rparr>]
                          else []),
               meta = label_meta\<rparr>)"

subsection \<open>The pattern \<^verbatim>\<open>_rx_url\<close> and the parsing of the data tokens\<close>

datatype cls =
    Lit char           \<comment> \<open>one given character\<close>
  | Dot                \<comment> \<open>\<^verbatim>\<open>.\<close>: any character but the newline\<close>
  | NoneOf string      \<comment> \<open>\<^verbatim>\<open>[^...]\<close>\<close>

datatype rx =
    Eps                \<comment> \<open>the empty pattern\<close>
  | One cls
  | Plus cls           \<comment> \<open>\<^verbatim>\<open>c+\<close>, greedy\<close>
  | Opt rx             \<comment> \<open>\<^verbatim>\<open>r?\<close>, greedy\<close>
  | Grp nat rx         \<comment> \<open>a numbered capturing group\<close>
  | Seq rx rx

fun cls_ok :: "cls \<Rightarrow> char \<Rightarrow> bool" where
  "cls_ok (Lit a) c = (c = a)"
| "cls_ok Dot c = (c \<noteq> CHR 0x0A)"
| "cls_ok (NoneOf cs) c = (c \<notin> set cs)"

type_synonym groups = "nat \<Rightarrow> string option"

fun star :: "cls \<Rightarrow> string \<Rightarrow> (string \<Rightarrow> groups option) \<Rightarrow> groups option" where
  \<comment> \<open>\<^verbatim>\<open>c*\<close> followed by the continuation \<open>k\<close>: the longest run first, then one character
      less at a time (backtracking).\<close>
  "star c [] k = k []"
| "star c (x # xs) k =
     (if cls_ok c x
      then (case star c xs k of Some g \<Rightarrow> Some g | None \<Rightarrow> k (x # xs))
      else k (x # xs))"

fun rmatch :: "rx \<Rightarrow> string \<Rightarrow> groups \<Rightarrow> (string \<Rightarrow> groups \<Rightarrow> groups option) \<Rightarrow> groups option" where
  \<comment> \<open>The backtracking matcher of \<^verbatim>\<open>re\<close>: \<open>rmatch r s g k\<close> matches \<open>r\<close> at the start of \<open>s\<close>
      and hands the rest of the text and the groups to \<open>k\<close>; when \<open>k\<close> fails, the next
      way of matching \<open>r\<close> is tried.\<close>
  "rmatch Eps s g k = k s g"
| "rmatch (One c) s g k = (case s of [] \<Rightarrow> None | x # xs \<Rightarrow> if cls_ok c x then k xs g else None)"
| "rmatch (Plus c) s g k =
     (case s of [] \<Rightarrow> None | x # xs \<Rightarrow> if cls_ok c x then star c xs (\<lambda>r. k r g) else None)"
| "rmatch (Opt r) s g k = (case rmatch r s g k of Some g' \<Rightarrow> Some g' | None \<Rightarrow> k s g)"
| "rmatch (Grp n r) s g k =
     rmatch r s g (\<lambda>s' g'. k s' (g'(n \<mapsto> take (length s - length s') s)))"
| "rmatch (Seq a b) s g k = rmatch a s g (\<lambda>s' g'. rmatch b s' g' k)"

definition lits :: "string \<Rightarrow> rx" where
  \<comment> \<open>A string of literal characters.\<close>
  "lits s = foldr (\<lambda>c r. Seq (One (Lit c)) r) s Eps"

definition rx_scheme :: rx where
  \<comment> \<open>\<^verbatim>\<open>https?://\<close>, the content of group 1.\<close>
  "rx_scheme = Seq (lits ''http'') (Seq (Opt (One (Lit CHR ''s''))) (lits ''://''))"

definition rx_body :: rx where
  \<comment> \<open>\<^verbatim>\<open>(.+[^/.]+\.[^/.]+)(/?.+)?\<close>, groups 2 and 3.\<close>
  "rx_body =
     Seq (Grp 2 (Seq (Plus Dot) (Seq (Plus (NoneOf ''/.''))
                   (Seq (One (Lit CHR ''.'')) (Plus (NoneOf ''/.''))))))
         (Opt (Grp 3 (Seq (Opt (One (Lit CHR ''/''))) (Plus Dot))))"

definition rx_url :: rx where
  \<comment> \<open>\<^verbatim>\<open>_rx_url = re.compile(r'(https?://)?(.+[^/.]+\.[^/.]+)(/?.+)?')\<close>\<close>
  "rx_url = Seq (Opt (Grp 1 rx_scheme)) rx_body"


definition re_match :: "rx \<Rightarrow> string \<Rightarrow> groups option" where
  \<comment> \<open>\<^verbatim>\<open>pattern.match(s)\<close>: a match at the start of \<open>s\<close>, of any length.\<close>
  "re_match r s = rmatch r s Map.empty (\<lambda>rest g. Some g)"

definition falsy :: "string option \<Rightarrow> bool" where
  \<comment> \<open>\<^verbatim>\<open>not m.group(n)\<close>: the group took no part in the match, or is empty.\<close>
  "falsy v = (case v of None \<Rightarrow> True | Some s \<Rightarrow> s = [])"

definition normalize_url :: "string \<Rightarrow> error + string" where
  \<comment> \<open>Lines 167 to 173 of \<^verbatim>\<open>Args.process_args\<close>.\<close>
  "normalize_url u =
     (case re_match rx_url u of
        None \<Rightarrow> Inl (InvalidUrl u)
      | Some m \<Rightarrow> Inr (if falsy (m 1) then ''https://'' @ u else u))"

definition process_token ::
  "bool \<Rightarrow> string \<Rightarrow> LabelMeta \<Rightarrow> string \<Rightarrow> error + LabelData" where
  \<comment> \<open>The body of the loop of \<^verbatim>\<open>Args.process_args\<close> for one token \<^verbatim>\<open>data_str\<close>.\<close>
  "process_token break_on_any today label_type data_str =
     (let d = py_split data_str ''~''
      in if length d \<noteq> 2 then Inl (InvalidData data_str)
         else (case normalize_url (d ! 0) of
                 Inl e \<Rightarrow> Inl e
               | Inr u \<Rightarrow> LabelData_init break_on_any today u (d ! 1) label_type))"

fun process_tokens ::
  "bool \<Rightarrow> string \<Rightarrow> LabelMeta \<Rightarrow> string list \<Rightarrow> error + LabelData list" where
  "process_tokens break_on_any today label_type [] = Inr []"
| "process_tokens break_on_any today label_type (data_str # rest) =
     (case process_token break_on_any today label_type data_str of
        Inl e \<Rightarrow> Inl e
      | Inr d \<Rightarrow> (case process_tokens break_on_any today label_type rest of
                    Inl e \<Rightarrow> Inl e
                  | Inr ds \<Rightarrow> Inr (d # ds)))"

definition process_args ::
  "bool \<Rightarrow> string \<Rightarrow> LabelMeta \<Rightarrow> string list \<Rightarrow> error + LabelData list" where
  \<comment> \<open>\<^verbatim>\<open>Args.process_args\<close>, after the template has been looked up: \<^verbatim>\<open>self.label_type\<close> is
      an object and so true.\<close>
  "process_args break_on_any today label_type data_interim =
     (if length data_interim > 0 then process_tokens break_on_any today label_type data_interim
      else Inl InvalidDataEmpty)"

subsection \<open>Words, for the statements about the word-preserving strategy\<close>

text \<open>
  The functions of this subsection are not part of the program. \<open>py_words\<close> is Python's
  \<^verbatim>\<open>s.split()\<close>, the words of a text (the maximal runs of characters that are not whitespace),
  and \<open>join_spaces\<close> is \<^verbatim>\<open>' '.join(ls)\<close>. A gap is a non-empty chunk of whitespace, and a list
  of chunks is gap-separated when of any two neighbours one is a gap. \<^verbatim>\<open>_split\<close> leaves the
  words of a text undivided when its chunks are gap-separated, that is, when it finds no
  place to break inside a run of characters that are not whitespace; the chunks fit a width
  when every chunk that is not whitespace is at most that long.
\<close>

function py_words :: "string \<Rightarrow> string list" where
  "py_words [] = []"
| "py_words (c # cs) =
     (if py_isspace c then py_words cs
      else (c # takeWhile nonspace cs) # py_words (dropWhile nonspace cs))"
  by pat_completeness auto
termination
  by (relation "measure length") (auto simp: less_Suc_eq_le length_dropWhile_le)

fun join_spaces :: "string list \<Rightarrow> string" where
  "join_spaces [] = []"
| "join_spaces [l] = l"
| "join_spaces (l # ls) = l @ '' '' @ join_spaces ls"

definition is_gap :: "string \<Rightarrow> bool" where
  "is_gap x = (x \<noteq> [] \<and> all_space x)"

fun gap_separated :: "string list \<Rightarrow> bool" where
  "gap_separated [] = True"
| "gap_separated [x] = True"
| "gap_separated (x # y # r) = ((is_gap x \<or> is_gap y) \<and> gap_separated (y # r))"

definition undivided :: "string \<Rightarrow> bool" where
  "undivided f = gap_separated (split (munge_whitespace f))"

definition chunks_fit :: "int \<Rightarrow> string \<Rightarrow> bool" where
  "chunks_fit w f = (\<forall>x\<in>set (split (munge_whitespace f)). all_space x \<or> int (length x) \<le> w)"

fun hyphens_safe :: "string \<Rightarrow> bool" where
  \<comment> \<open>No hyphen of the text is directly followed by a letter or by another hyphen.\<close>
  "hyphens_safe [] = True"
| "hyphens_safe [c] = True"
| "hyphens_safe (c # d # r) =
     ((is_hyphen c \<longrightarrow> \<not> is_letter d \<and> \<not> is_hyphen d) \<and> hyphens_safe (d # r))"

section \<open>Facts about the model\<close>

subsection \<open>The loop of \<^verbatim>\<open>_wrap_chunks\<close>\<close>

declare wrap_chunks.simps [simp del]

lemma is_ws_isspace: "is_ws c \<Longrightarrow> py_isspace c"
  by (auto simp: is_ws_def whitespace_def py_isspace_def)

lemma fill_line_shape:
  assumes "fill_line w cl n cs = (cl', n', cs')"
  shows "\<exists>taken. cl' = cl @ taken \<and> cs = taken @ cs'
           \<and> n' = n + sum_list (map length taken)
           \<and> (int n \<le> w \<longrightarrow> int n' \<le> w)
           \<and> (cs' \<noteq> [] \<longrightarrow> w < int (n' + length (hd cs')))"
  using assms
proof (induction w cl n cs rule: fill_line.induct)
  case (1 width cur_line cur_len)
  then show ?case by simp
next
  case (2 width cur_line cur_len c cs)
  show ?case
  proof (cases "int (cur_len + length c) \<le> width")
    case True
    with 2 obtain taken where
      "cl' = (cur_line @ [c]) @ taken" "cs = taken @ cs'"
      "n' = cur_len + length c + sum_list (map length taken)"
      "int n' \<le> width" "cs' \<noteq> [] \<longrightarrow> width < int (n' + length (hd cs'))"
      by auto
    then show ?thesis
      by (intro exI [of _ "c # taken"]) auto
  next
    case False
    with 2 show ?thesis by auto
  qed
qed

lemma rfind_less: "0 \<le> e \<Longrightarrow> rfind ch s e < e"
proof -
  assume e: "0 \<le> e"
  have "length (dropWhile (\<lambda>c. c \<noteq> ch) (rev (take (slice_end s e) s))) \<le> slice_end s e"
    by (rule order_trans [OF length_dropWhile_le]) simp
  moreover have "int (slice_end s e) \<le> e"
    using e by (simp add: slice_end_def)
  ultimately show ?thesis by (simp add: rfind_def)
qed

lemma handle_long_word_shape:
  assumes "handle_long_word (c # cs) cl n w = (cl2, rest)" and "0 < w" and "int n \<le> w"
  shows "\<exists>e. cl2 = cl @ [take e c] \<and> rest = drop e c # cs \<and> int e \<le> w - int n"
proof -
  define space_left where "space_left = w - int n"
  define hyphen where "hyphen = rfind CHR ''-'' c space_left"
  define end' where "end' = (if int (length c) > space_left \<and> hyphen > 0
                         \<and> list_ex (\<lambda>c. c \<noteq> CHR ''-'') (take (nat hyphen) c)
                      then hyphen + 1 else space_left)"
  have sl: "0 \<le> space_left" using assms by (simp add: space_left_def)
  have "hyphen < space_left" unfolding hyphen_def by (rule rfind_less [OF sl])
  then have "end' \<le> space_left" "0 \<le> end'" using sl by (simp_all add: end'_def)
  then have "int (slice_end c end') \<le> space_left"
    by (simp add: slice_end_def)
  moreover have "cl2 = cl @ [take (slice_end c end') c]" "rest = drop (slice_end c end') c # cs"
    using assms
    by (auto simp: handle_long_word_def Let_def end'_def hyphen_def space_left_def)
  ultimately show ?thesis unfolding space_left_def by blast
qed

lemma one_line_shape:
  assumes ol: "one_line w st chunks = (cur, rest)" and ne: "chunks \<noteq> []" and pos: "0 < w"
  shows "\<exists>d taken tail cur2.
           chunks = d @ taken @ tail
         \<and> (d = [] \<or> (\<exists>c. d = [c] \<and> all_space c \<and> st))
         \<and> ((cur2 = taken \<and> rest = tail)
             \<or> (\<exists>c cs e. tail = c # cs \<and> w < int (length c) \<and> cur2 = taken @ [take e c]
                   \<and> rest = drop e c # cs))
         \<and> int (sum_list (map length cur2)) \<le> w
         \<and> (cur = cur2 \<or> (cur2 \<noteq> [] \<and> all_space (last cur2) \<and> cur = butlast cur2))"
proof -
  define chunks1 where "chunks1 = (if all_space (hd chunks) \<and> st then tl chunks else chunks)"
  define d where "d = (if all_space (hd chunks) \<and> st then [hd chunks] else [])"
  have ch: "chunks = d @ chunks1" using ne by (simp add: chunks1_def d_def)
  have dd: "d = [] \<or> (\<exists>c. d = [c] \<and> all_space c \<and> st)" by (simp add: d_def)
  obtain taken n c2 where fl: "fill_line w [] 0 chunks1 = (taken, n, c2)"
    by (metis prod_cases3)
  from fill_line_shape [OF fl] pos
  have tk: "chunks1 = taken @ c2" and n: "n = sum_list (map length taken)" and nw: "int n \<le> w"
    by auto
  define r where "r = (if c2 \<noteq> [] \<and> int (length (hd c2)) > w
             then handle_long_word c2 taken n w else (taken, c2))"
  obtain cur2 rest2 where r: "r = (cur2, rest2)" by (cases r)
  have ol': "rest = rest2" "cur = (if cur2 \<noteq> [] \<and> all_space (last cur2) then butlast cur2 else cur2)"
    using ol
    by (simp_all add: one_line_def chunks1_def [symmetric] fl r_def [symmetric] r Let_def)
  have "((cur2 = taken \<and> rest2 = c2)
             \<or> (\<exists>c cs e. c2 = c # cs \<and> w < int (length c) \<and> cur2 = taken @ [take e c]
                   \<and> rest2 = drop e c # cs))
         \<and> int (sum_list (map length cur2)) \<le> w"
  proof (cases "c2 \<noteq> [] \<and> int (length (hd c2)) > w")
    case False
    then show ?thesis using r nw n by (auto simp: r_def)
  next
    case True
    then obtain c cs where c2: "c2 = c # cs" and big: "w < int (length c)"
      by (cases c2) auto
    from True r have "handle_long_word (c # cs) taken n w = (cur2, rest2)"
      by (simp add: r_def c2)
    from handle_long_word_shape [OF this pos nw]
    obtain e where "cur2 = taken @ [take e c]" "rest2 = drop e c # cs" "int e \<le> w - int n"
      by blast
    then show ?thesis using c2 big n by auto
  qed
  moreover have "chunks = d @ taken @ c2" using ch tk by simp
  moreover have "cur = cur2 \<or> (cur2 \<noteq> [] \<and> all_space (last cur2) \<and> cur = butlast cur2)"
    using ol'(2) by simp
  ultimately show ?thesis
    unfolding ol'(1) using dd by blast
qed

lemma wrap_chunks_nil: "0 < w \<Longrightarrow> wrap_chunks w lns [] = Inr lns"
  by (simp add: wrap_chunks.simps)

lemma wrap_chunks_step:
  "0 < w \<Longrightarrow> chunks \<noteq> [] \<Longrightarrow> one_line w (lns \<noteq> []) chunks = (cur, rest) \<Longrightarrow>
   wrap_chunks w lns chunks = wrap_chunks w (if cur \<noteq> [] then lns @ [concat cur] else lns) rest"
  by (subst wrap_chunks.simps) simp

lemma wrap_chunks_invalid: "w \<le> 0 \<Longrightarrow> wrap_chunks w lns chunks = Inl (InvalidWidth w)"
  by (simp add: wrap_chunks.simps)

lemma wrap_chunks_total: "0 < w \<Longrightarrow> \<exists>res. wrap_chunks w lns chunks = Inr res"
proof (induction w lns chunks rule: wrap_chunks.induct)
  case (1 width lns chunks)
  show ?case
  proof (cases "chunks = []")
    case True
    with 1 show ?thesis by (simp add: wrap_chunks_nil)
  next
    case False
    obtain cur rest where ol: "one_line width (lns \<noteq> []) chunks = (cur, rest)"
      by (cases "one_line width (lns \<noteq> []) chunks")
    from "1.IH" [OF _ False ol [symmetric]] "1.prems"
    show ?thesis
      by (simp add: wrap_chunks_step [OF "1.prems" False ol])
  qed
qed

lemma wrap_chunks_length:
  "wrap_chunks w lns chunks = Inr res \<Longrightarrow> \<forall>l\<in>set lns. int (length l) \<le> w \<Longrightarrow>
   \<forall>l\<in>set res. int (length l) \<le> w"
proof (induction w lns chunks rule: wrap_chunks.induct)
  case (1 width lns chunks)
  have pos: "0 < width" using "1.prems"(1) by (cases "0 < width") (simp_all add: wrap_chunks_invalid)
  show ?case
  proof (cases "chunks = []")
    case True
    with 1 pos show ?thesis by (simp add: wrap_chunks_nil)
  next
    case False
    obtain cur rest where ol: "one_line width (lns \<noteq> []) chunks = (cur, rest)"
      by (cases "one_line width (lns \<noteq> []) chunks")
    from one_line_shape [OF ol False pos] obtain cur2 where
      c2: "int (sum_list (map length cur2)) \<le> width"
      "cur = cur2 \<or> (cur2 \<noteq> [] \<and> all_space (last cur2) \<and> cur = butlast cur2)"
      by blast
    have "sum_list (map length cur) \<le> sum_list (map length cur2)"
    proof -
      have "sum_list (map length (butlast xs)) \<le> sum_list (map length xs)" for xs :: "string list"
        by (induction xs) auto
      with c2(2) show ?thesis by auto
    qed
    with c2(1) have "int (length (concat cur)) \<le> width"
      by (simp add: length_concat)
    with "1.prems"(2)
    have "\<forall>l\<in>set (if cur \<noteq> [] then lns @ [concat cur] else lns). int (length l) \<le> width"
      by auto
    moreover have "wrap_chunks width (if cur \<noteq> [] then lns @ [concat cur] else lns) rest = Inr res"
      using "1.prems"(1) by (simp add: wrap_chunks_step [OF pos False ol])
    ultimately show ?thesis
      using "1.IH" [OF _ False ol [symmetric]] pos by simp
  qed
qed

subsection \<open>The chunks and the characters of the wrapped lines\<close>

lemma scan_word_concat: "scan_word bef acc cs = (chunk, rest) \<Longrightarrow> chunk @ rest = rev acc @ cs"
  by (induction bef acc cs rule: scan_word.induct) (auto split: if_splits)

lemma next_chunk_concat: "next_chunk bef s = (chunk, rest) \<Longrightarrow> chunk @ rest = s"
  by (cases s) (auto split: if_splits dest: scan_word_concat)

lemma scan_word_nonempty: "scan_word bef acc cs = (chunk, rest) \<Longrightarrow> acc \<noteq> [] \<Longrightarrow> chunk \<noteq> []"
  by (induction bef acc cs rule: scan_word.induct) (auto split: if_splits)

lemma next_chunk_nonempty: "next_chunk bef (c # cs) = (chunk, rest) \<Longrightarrow> chunk \<noteq> []"
  by (auto simp: emdash_ahead_def split: if_splits dest: scan_word_nonempty)

lemma split_chunks_concat: "concat (split_chunks bef s) = s"
proof (induction bef s rule: split_chunks.induct)
  case (1 bef)
  show ?case by simp
next
  case (2 bef c cs)
  obtain chunk rest where nc: "next_chunk bef (c # cs) = (chunk, rest)"
    by (cases "next_chunk bef (c # cs)")
  with 2 [OF nc [symmetric]] next_chunk_concat [OF nc] show ?case by simp
qed

lemma split_chunks_nonempty: "x \<in> set (split_chunks bef s) \<Longrightarrow> x \<noteq> []"
proof (induction bef s rule: split_chunks.induct)
  case (1 bef)
  then show ?case by simp
next
  case (2 bef c cs)
  obtain chunk rest where nc: "next_chunk bef (c # cs) = (chunk, rest)"
    by (cases "next_chunk bef (c # cs)")
  with 2 next_chunk_nonempty [OF nc] show ?case by auto
qed

lemma split_eq: "split txt = split_chunks [] txt"
  unfolding split_def by (rule filter_True) (auto dest: split_chunks_nonempty)

lemma split_concat: "concat (split txt) = txt"
  by (simp add: split_eq split_chunks_concat)

lemma expandtabs_nonspace: "filter nonspace (expandtabs t j s) = filter nonspace s"
  by (induction t j s rule: expandtabs.induct) (auto simp: py_isspace_def)

lemma munge_nonspace: "filter nonspace (munge_whitespace s) = filter nonspace s"
proof -
  have "filter nonspace (map (\<lambda>c. if is_ws c then CHR '' '' else c) xs) = filter nonspace xs" for xs
    by (induction xs) (auto simp: py_isspace_def dest: is_ws_isspace)
  then show ?thesis by (simp add: munge_whitespace_def expandtabs_nonspace)
qed

lemma all_space_filter: "all_space x \<Longrightarrow> filter nonspace x = []"
  by (induction x) (auto simp: all_space_def)

lemma one_line_chars:
  assumes ol: "one_line w st chunks = (cur, rest)" and ne: "chunks \<noteq> []" and pos: "0 < w"
  shows "filter nonspace (concat cur) @ filter nonspace (concat rest) = filter nonspace (concat chunks)"
proof -
  from one_line_shape [OF ol ne pos] obtain d taken tail cur2 where
    ch: "chunks = d @ taken @ tail"
    and d: "d = [] \<or> (\<exists>c. d = [c] \<and> all_space c \<and> st)"
    and c2: "(cur2 = taken \<and> rest = tail)
             \<or> (\<exists>c cs e. tail = c # cs \<and> w < int (length c) \<and> cur2 = taken @ [take e c]
                   \<and> rest = drop e c # cs)"
    and cur: "cur = cur2 \<or> (cur2 \<noteq> [] \<and> all_space (last cur2) \<and> cur = butlast cur2)"
    by blast
  have fd: "filter nonspace (concat d) = []"
    using d by (auto simp: all_space_filter)
  have "concat cur2 @ concat rest = concat taken @ concat tail"
    using c2 by auto
  then have f2: "filter nonspace (concat cur2) @ filter nonspace (concat rest)
               = filter nonspace (concat taken) @ filter nonspace (concat tail)"
    by (metis filter_append)
  have fc: "filter nonspace (concat cur) = filter nonspace (concat cur2)"
  proof -
    { assume a: "cur2 \<noteq> []" "all_space (last cur2)"
      then have "cur2 = butlast cur2 @ [last cur2]" by simp
      then have "concat cur2 = concat (butlast cur2) @ last cur2"
        by (metis concat.simps(1) concat.simps(2) concat_append append_Nil2)
      with a have "filter nonspace (concat cur2) = filter nonspace (concat (butlast cur2))"
        by (simp add: all_space_filter) }
    with cur show ?thesis by auto
  qed
  show ?thesis using f2 fc fd by (simp add: ch)
qed

lemma wrap_chunks_chars:
  "wrap_chunks w lns chunks = Inr res \<Longrightarrow>
   filter nonspace (concat res) = filter nonspace (concat lns) @ filter nonspace (concat chunks)"
proof (induction w lns chunks rule: wrap_chunks.induct)
  case (1 width lns chunks)
  have pos: "0 < width" using "1.prems"(1) by (cases "0 < width") (simp_all add: wrap_chunks_invalid)
  show ?case
  proof (cases "chunks = []")
    case True
    with 1 pos show ?thesis by (simp add: wrap_chunks_nil)
  next
    case False
    obtain cur rest where ol: "one_line width (lns \<noteq> []) chunks = (cur, rest)"
      by (cases "one_line width (lns \<noteq> []) chunks")
    have "wrap_chunks width (if cur \<noteq> [] then lns @ [concat cur] else lns) rest = Inr res"
      using "1.prems"(1) by (simp add: wrap_chunks_step [OF pos False ol])
    from "1.IH" [OF _ False ol [symmetric] this] pos
    have "filter nonspace (concat res)
        = filter nonspace (concat (if cur \<noteq> [] then lns @ [concat cur] else lns))
          @ filter nonspace (concat rest)"
      by simp
    also have "\<dots> = filter nonspace (concat lns) @ (filter nonspace (concat cur)
          @ filter nonspace (concat rest))"
      by simp
    finally show ?thesis
      by (simp only: one_line_chars [OF ol False pos])
  qed
qed

lemma wrap_length: "wrap txt w = Inr ls \<Longrightarrow> l \<in> set ls \<Longrightarrow> int (length l) \<le> w"
  using wrap_chunks_length [of w "[]" "split (munge_whitespace txt)" ls] by (simp add: wrap_def)

lemma wrap_chars: "wrap txt w = Inr ls \<Longrightarrow> filter nonspace (concat ls) = filter nonspace txt"
  using wrap_chunks_chars [of w "[]" "split (munge_whitespace txt)" ls]
  by (simp add: wrap_def split_concat munge_nonspace)

lemma wrap_total: "0 < w \<Longrightarrow> \<exists>ls. wrap txt w = Inr ls"
  by (simp add: wrap_def wrap_chunks_total)

lemma wrap_invalid: "w \<le> 0 \<Longrightarrow> wrap txt w = Inl (InvalidWidth w)"
  by (simp add: wrap_def wrap_chunks_invalid)

lemma wrap_empty: "0 < w \<Longrightarrow> wrap [] w = Inr []"
  by (simp add: wrap_def munge_whitespace_def split_def wrap_chunks_nil)

subsection \<open>Right-stripping, \<^verbatim>\<open>chunk_str\<close> and the two strategies\<close>

lemma rstrip_length: "length (rstrip s) \<le> length s"
  unfolding rstrip_def using length_dropWhile_le [of py_isspace "rev s"] by simp

lemma rstrip_last: "rstrip s \<noteq> [] \<Longrightarrow> nonspace (last (rstrip s))"
  unfolding rstrip_def using hd_dropWhile [of py_isspace "rev s"] by (simp add: last_rev)

lemma rstrip_id: "s = [] \<or> nonspace (last s) \<Longrightarrow> rstrip s = s"
  unfolding rstrip_def by (cases s rule: rev_cases) auto

lemma rstrip_idem: "rstrip (rstrip s) = rstrip s"
  using rstrip_last [of s] by (intro rstrip_id) auto

lemma rstrip_fixed: "rstrip s = s \<Longrightarrow> s = [] \<or> nonspace (last s)"
  using rstrip_last [of s] by auto

lemma rstrip_prefix: "prefix (rstrip s) s"
proof -
  have "suffix (dropWhile py_isspace (rev s)) (rev s)"
    by (rule suffix_dropWhile)
  then show ?thesis
    unfolding rstrip_def by (metis rev_rev_ident suffix_to_prefix)
qed

lemma rstrip_nonspace: "filter nonspace (rstrip s) = filter nonspace s"
proof -
  have "filter nonspace (dropWhile py_isspace xs) = filter nonspace xs" for xs
    by (induction xs) auto
  then show ?thesis
    unfolding rstrip_def by (metis rev_filter rev_rev_ident)
qed

lemma chunk_at_length: "length (chunk_at cstr n idx) \<le> n"
proof -
  have "length (rstrip (take n (drop (idx * n) cstr))) \<le> n"
    by (rule order_trans [OF rstrip_length]) simp
  then show ?thesis by (auto simp: chunk_at_def Let_def)
qed

lemma drop1_rstrip:
  assumes "rstrip i = i" and "startswith_space i"
  shows "rstrip (drop 1 i) = drop 1 i"
proof (cases "drop 1 i = []")
  case True
  then show ?thesis by (simp add: rstrip_def)
next
  case False
  then obtain c r where i: "i = c # r" "r \<noteq> []" by (cases i) auto
  then have "last (drop 1 i) = last i" by simp
  moreover have "nonspace (last i)" using rstrip_fixed [OF assms(1)] i by auto
  ultimately show ?thesis by (intro rstrip_id) simp
qed

lemma chunk_at_rstrip: "rstrip (chunk_at cstr n idx) = chunk_at cstr n idx"
proof -
  define i where "i = rstrip (take n (drop (idx * n) cstr))"
  have "rstrip i = i" by (simp add: i_def rstrip_idem)
  then have "rstrip (if idx \<noteq> 0 \<and> startswith_space i then drop 1 i else i)
           = (if idx \<noteq> 0 \<and> startswith_space i then drop 1 i else i)"
    using drop1_rstrip [of i] by simp
  then show ?thesis unfolding chunk_at_def Let_def i_def [symmetric] .
qed

lemma chunk_at_no_leading_space:
  assumes "idx \<noteq> 0" and "take 2 (drop (idx * n) cstr) \<noteq> ''  ''"
  shows "\<not> startswith_space (chunk_at cstr n idx)"
proof
  assume a: "startswith_space (chunk_at cstr n idx)"
  define sl where "sl = take n (drop (idx * n) cstr)"
  define i where "i = rstrip sl"
  have ca: "chunk_at cstr n idx = (if startswith_space i then drop 1 i else i)"
    using assms(1) by (simp add: chunk_at_def Let_def i_def sl_def)
  with a have s1: "startswith_space i" and s2: "startswith_space (drop 1 i)"
    by (auto split: if_splits)
  then obtain r where i: "i = CHR '' '' # CHR '' '' # r"
    by (cases i; cases "tl i") (auto simp: startswith_space_def)
  from rstrip_prefix [of sl] obtain t where slt: "sl = i @ t"
    unfolding i_def by (auto simp: prefix_def)
  then have "take 2 sl = ''  ''" by (simp add: i)
  moreover have "2 \<le> n"
  proof -
    have "length sl \<le> n" by (simp add: sl_def)
    moreover have "2 \<le> length sl" by (simp add: slt i)
    ultimately show ?thesis by simp
  qed
  ultimately show False using assms(2) by (simp add: sl_def min_def)
qed

lemma py_ceil_div_nonpos: "b < 0 \<Longrightarrow> py_ceil_div a b \<le> 0"
  by (simp add: py_ceil_div_def neg_imp_zdiv_nonneg_iff)

lemma py_ceil_div_exact:
  "0 < b \<Longrightarrow> b < int a \<Longrightarrow> py_ceil_div a b = - ((- int a) div b)"
proof -
  assume b: "0 < b" "b < int a"
  have "int a * 1 \<le> int a * 2 ^ 1075" by (rule mult_left_mono) simp_all
  with b have "\<not> int a * 2 ^ 1075 \<le> b" by simp
  then show ?thesis by (simp add: py_ceil_div_def)
qed

lemma chunk_str_lines:
  assumes "chunk_str cstr m = Inr cs" and "c \<in> set cs"
  shows "int (length c) \<le> m \<and> rstrip c = c"
proof -
  from assms obtain idx where c: "c = chunk_at cstr (nat m) idx"
    and n: "0 < nat (py_ceil_div (length cstr) m)" and m0: "m \<noteq> 0"
    by (auto simp: chunk_str_def Let_def split: if_splits)
  have "0 < m"
  proof (rule ccontr)
    assume "\<not> 0 < m"
    with m0 have "m < 0" by simp
    from py_ceil_div_nonpos [OF this, of "length cstr"] n show False by simp
  qed
  with chunk_at_length [of cstr "nat m" idx] chunk_at_rstrip [of cstr "nat m" idx] c
  show ?thesis by auto
qed

lemma break_any_lines:
  "break_any m ls = Inr res \<Longrightarrow> \<forall>l\<in>set ls. rstrip l = l \<Longrightarrow> r \<in> set res \<Longrightarrow>
   int (length r) \<le> m \<and> rstrip r = r"
proof (induction ls arbitrary: res)
  case Nil
  then show ?case by simp
next
  case (Cons l ls)
  from Cons.prems(1) obtain w ws where
    w: "(if int (length l) \<le> m then Inr [l] else chunk_str l m) = Inr w"
    and ws: "break_any m ls = Inr ws" and res: "res = w @ ws"
    by (auto split: sum.splits)
  show ?case
  proof (cases "r \<in> set w")
    case True
    with w Cons.prems(2) chunk_str_lines [of l m w r] show ?thesis
      by (auto split: if_splits)
  next
    case False
    with Cons.prems(3) res have "r \<in> set ws" by simp
    with Cons.IH [OF ws] Cons.prems(2) show ?thesis by simp
  qed
qed

lemma split_acc_nonempty: "split_acc sep acc s \<noteq> []"
  by (induction sep acc s rule: split_acc.induct) auto

lemma text_lines_rstrip: "l \<in> set (text_lines txt) \<Longrightarrow> rstrip l = l"
  by (auto simp: text_lines_def rstrip_idem split: if_splits)

lemma text_lines_plain: "\<not> contains line_break txt \<Longrightarrow> text_lines txt = [rstrip txt]"
  by (simp add: text_lines_def)

lemma break_word_length:
  "break_word m ls = Inr res \<Longrightarrow> r \<in> set res \<Longrightarrow> int (length r) \<le> m"
proof (induction ls arbitrary: res)
  case Nil
  then show ?case by simp
next
  case (Cons l ls)
  from Cons.prems(1) obtain w ws where
    w: "wrap l m = Inr w" and ws: "break_word m ls = Inr ws" and res: "res = w @ ws"
    by (auto split: sum.splits)
  with Cons.prems(2) Cons.IH [OF ws] wrap_length [OF w] show ?case by auto
qed

lemma break_word_append:
  "break_word m (xs @ ys) =
     (case break_word m xs of Inl e \<Rightarrow> Inl e
      | Inr a \<Rightarrow> (case break_word m ys of Inl e \<Rightarrow> Inl e | Inr b \<Rightarrow> Inr (a @ b)))"
  by (induction xs) (auto split: sum.splits)

lemma break_any_append:
  "break_any m (xs @ ys) =
     (case break_any m xs of Inl e \<Rightarrow> Inl e
      | Inr a \<Rightarrow> (case break_any m ys of Inl e \<Rightarrow> Inl e | Inr b \<Rightarrow> Inr (a @ b)))"
  by (induction xs) (auto split: sum.splits)

lemma broken_lines_bound:
  "broken_lines b m txt = Inr ls \<Longrightarrow> int (length ls) \<le> max_text_lines m"
  by (auto simp: broken_lines_def split: sum.splits if_splits)

lemma broken_lines_length:
  assumes "broken_lines b m txt = Inr ls" and "l \<in> set ls"
  shows "int (length l) \<le> text_line_max_len m"
proof -
  from assms(1) have "break_any (text_line_max_len m) (text_lines txt) = Inr ls
      \<or> break_word (text_line_max_len m) (text_lines txt) = Inr ls"
    by (auto simp: broken_lines_def split: sum.splits if_splits)
  then show ?thesis
    using break_any_lines [of "text_line_max_len m" "text_lines txt" ls l]
      break_word_length [of "text_line_max_len m" "text_lines txt" ls l] assms(2)
    by (auto dest: text_lines_rstrip)
qed

lemma sum_length_bound:
  "\<forall>l\<in>set ls. int (length l) \<le> w \<Longrightarrow> int (length (concat ls)) \<le> w * int (length ls)"
  by (induction ls) (auto simp: algebra_simps)

lemma wrap_count:
  assumes "wrap txt w = Inr ls"
  shows "int (length (filter nonspace txt)) \<le> w * int (length ls)"
proof -
  have "length (filter nonspace (concat ls)) \<le> length (concat ls)" by simp
  moreover have "int (length (concat ls)) \<le> w * int (length ls)"
    using wrap_length [OF assms] by (intro sum_length_bound) simp
  ultimately show ?thesis by (simp add: wrap_chars [OF assms])
qed

lemma chunk_str_count:
  "m \<noteq> 0 \<Longrightarrow> chunk_str cstr m = Inr cs \<Longrightarrow> int (length cs) = max 0 (py_ceil_div (length cstr) m)"
  by (auto simp: chunk_str_def Let_def)

subsection \<open>The matcher and the pattern of the URL\<close>









lemma break_any_total: "m \<noteq> 0 \<Longrightarrow> \<exists>res. break_any m ls = Inr res"
  by (induction ls) (auto simp: chunk_str_def Let_def)

subsection \<open>Words and chunks separated by whitespace\<close>


lemma until_space:
  "py_isspace c \<Longrightarrow> takeWhile nonspace (xs @ c # y) = takeWhile nonspace xs
     \<and> dropWhile nonspace (xs @ c # y) = dropWhile nonspace xs @ c # y"
  by (induction xs) auto

lemma py_words_space: "py_isspace c \<Longrightarrow> py_words (x @ c # y) = py_words x @ py_words y"
  by (induction x rule: py_words.induct) (auto simp: until_space)

lemma py_words_gap: "all_space x \<Longrightarrow> py_words (x @ y) = py_words y"
  by (induction x) (auto simp: all_space_def)

lemma py_words_gap_only: "all_space x \<Longrightarrow> py_words x = []"
  using py_words_gap [of x "[]"] by simp

lemma py_words_trailing_gap: "all_space y \<Longrightarrow> py_words (x @ y) = py_words x"
proof (cases y)
  case Nil
  then show ?thesis by simp
next
  case (Cons c r)
  assume a: "all_space y"
  then have c: "py_isspace c" and r: "all_space r" by (simp_all add: Cons all_space_def)
  have "py_words (x @ c # r) = py_words x @ py_words r" by (rule py_words_space [OF c])
  then show ?thesis by (simp add: Cons py_words_gap_only [OF r])
qed

lemma concat_butlast: "xs \<noteq> [] \<Longrightarrow> concat xs = concat (butlast xs) @ last xs"
  by (induction xs) auto

lemma join_spaces_words: "py_words (join_spaces ls) = concat (map py_words ls)"
proof (induction ls rule: join_spaces.induct)
  case (3 l v va)
  have "py_words (l @ CHR '' '' # join_spaces (v # va)) = py_words l @ py_words (join_spaces (v # va))"
    by (rule py_words_space) (simp add: py_isspace_def)
  with 3 show ?case by simp
qed simp_all

lemma expandtabs_plain: "\<forall>c\<in>set s. c \<noteq> CHR 0x09 \<Longrightarrow> expandtabs t j s = s"
  by (induction t j s rule: expandtabs.induct) auto

lemma munge_id: "\<forall>c\<in>set s. is_ws c \<longrightarrow> c = CHR '' '' \<Longrightarrow> munge_whitespace s = s"
proof -
  assume p: "\<forall>c\<in>set s. is_ws c \<longrightarrow> c = CHR '' ''"
  have "is_ws (CHR 0x09)" by (simp add: is_ws_def whitespace_def)
  with p have "\<forall>c\<in>set s. c \<noteq> CHR 0x09" by auto
  then have "expandtabs 8 0 s = s" by (rule expandtabs_plain)
  moreover have "map (\<lambda>c. if is_ws c then CHR '' '' else c) s = s"
    using p by (intro map_idI) auto
  ultimately show ?thesis by (simp add: munge_whitespace_def)
qed

lemma fill_line_all:
  "int (n + sum_list (map length cs)) \<le> w \<Longrightarrow>
   fill_line w cl n cs = (cl @ cs, n + sum_list (map length cs), [])"
  by (induction w cl n cs rule: fill_line.induct) (auto simp: add.assoc)

lemma wrap_one_line:
  assumes "\<forall>c\<in>set s. is_ws c \<longrightarrow> c = CHR '' ''" and "s \<noteq> []" and "nonspace (last s)"
    and "int (length s) \<le> w"
  shows "wrap s w = Inr [s]"
proof -
  define chunks where "chunks = split s"
  have cc: "concat chunks = s" by (simp add: chunks_def split_concat)
  have ne: "chunks \<noteq> []" using cc assms(2) by auto
  have nemp: "\<forall>x\<in>set chunks. x \<noteq> []"
    by (auto simp: chunks_def split_eq dest: split_chunks_nonempty)
  have pos: "0 < w" using assms(2,4) by (cases s) auto
  have "length (concat chunks) = sum_list (map length chunks)" by (simp add: length_concat)
  with cc assms(4) have "int (0 + sum_list (map length chunks)) \<le> w" by simp
  from fill_line_all [OF this, of "[]"]
  have fl: "fill_line w [] 0 chunks = (chunks, sum_list (map length chunks), [])" by simp
  have "last (concat chunks) = last (last chunks)"
    using ne nemp by (induction chunks) (auto simp: last_append)
  with cc assms(3) have "nonspace (last (last chunks))" by simp
  moreover have "last chunks \<noteq> []" using ne nemp by simp
  ultimately have "\<not> all_space (last chunks)"
    using last_in_set [of "last chunks"] by (auto simp: all_space_def list_all_iff)
  with ne fl have ol: "one_line w (([] :: string list) \<noteq> []) chunks = (chunks, [])"
    by (simp add: one_line_def)
  have "wrap_chunks w [] chunks = wrap_chunks w [concat chunks] []"
    using wrap_chunks_step [OF pos ne ol] ne by simp
  then have "wrap_chunks w [] chunks = Inr [concat chunks]"
    by (simp add: wrap_chunks_nil [OF pos])
  then show ?thesis by (simp add: wrap_def munge_id [OF assms(1)] chunks_def [symmetric] cc)
qed

lemma split_chunks_Cons:
  "next_chunk bef (c # cs) = (chunk, rest) \<Longrightarrow>
   split_chunks bef (c # cs) = chunk # split_chunks (rev chunk @ bef) rest"
  by (simp del: next_chunk.simps)

lemma ws_run_gap: "is_ws c \<Longrightarrow> is_gap (takeWhile is_ws (c # cs))"
proof -
  assume c: "is_ws c"
  have "\<forall>x\<in>set (takeWhile is_ws (c # cs)). py_isspace x"
    by (metis is_ws_isspace set_takeWhileD)
  then show ?thesis using c by (simp add: is_gap_def all_space_def list_all_iff)
qed

lemma break_word_total: "0 < m \<Longrightarrow> \<exists>ls. break_word m frags = Inr ls"
proof (induction frags)
  case Nil
  then show ?case by simp
next
  case (Cons f frags)
  then show ?case using wrap_total [of m f] by auto
qed

lemma break_word_chars:
  "break_word m frags = Inr ls \<Longrightarrow> filter nonspace (concat ls) = filter nonspace (concat frags)"
proof (induction frags arbitrary: ls)
  case Nil
  then show ?case by simp
next
  case (Cons f frags)
  from Cons.prems obtain a b where a: "wrap f m = Inr a" and b: "break_word m frags = Inr b"
    and ls: "ls = a @ b" by (auto split: sum.splits)
  from wrap_chars [OF a] Cons.IH [OF b] show ?case by (simp add: ls)
qed

lemma gap_separated_words: "gap_separated cs \<Longrightarrow> py_words (concat cs) = concat (map py_words cs)"
proof (induction cs rule: gap_separated.induct)
  case 1
  then show ?case by simp
next
  case (2 x)
  then show ?case by simp
next
  case (3 x y r)
  then have ih: "py_words (concat (y # r)) = concat (map py_words (y # r))" by simp
  have "py_words (x @ concat (y # r)) = py_words x @ py_words (concat (y # r))"
  proof (cases "is_gap x")
    case True
    then show ?thesis by (simp add: is_gap_def py_words_gap py_words_gap_only del: concat.simps)
  next
    case False
    with "3.prems" have "is_gap y" by simp
    then obtain c y' where y: "y = c # y'" and c: "py_isspace c"
      by (cases y) (auto simp: is_gap_def all_space_def)
    have "py_words (x @ c # (y' @ concat r)) = py_words x @ py_words (y' @ concat r)"
      by (rule py_words_space [OF c])
    with c show ?thesis by (simp add: y)
  qed
  with ih show ?case by simp
qed

lemma gap_separated_append: "gap_separated (xs @ ys) \<Longrightarrow> gap_separated xs \<and> gap_separated ys"
proof (induction xs rule: gap_separated.induct)
  case 1
  then show ?case by simp
next
  case (2 x)
  then show ?case by (cases ys) auto
next
  case (3 x y r)
  then show ?case by auto
qed

lemma gap_separated_gap_Cons: "is_gap x \<Longrightarrow> gap_separated cs \<Longrightarrow> gap_separated (x # cs)"
  by (cases cs) auto

lemma one_line_words:
  assumes ol: "one_line w st chunks = (cur, rest)" and ne: "chunks \<noteq> []" and pos: "0 < w"
    and gs: "gap_separated chunks"
    and bound: "\<forall>x\<in>set chunks. all_space x \<or> int (length x) \<le> w"
  shows "py_words (concat cur) @ concat (map py_words rest) = concat (map py_words chunks)
         \<and> gap_separated rest \<and> (\<forall>x\<in>set rest. all_space x \<or> int (length x) \<le> w)"
proof -
  from one_line_shape [OF ol ne pos] obtain d taken tail cur2 where
    ch: "chunks = d @ taken @ tail"
    and d: "d = [] \<or> (\<exists>c. d = [c] \<and> all_space c \<and> st)"
    and c2: "(cur2 = taken \<and> rest = tail)
             \<or> (\<exists>c cs e. tail = c # cs \<and> w < int (length c) \<and> cur2 = taken @ [take e c]
                   \<and> rest = drop e c # cs)"
    and sm: "int (sum_list (map length cur2)) \<le> w"
    and cur: "cur = cur2 \<or> (cur2 \<noteq> [] \<and> all_space (last cur2) \<and> cur = butlast cur2)"
    by blast
  from gs have at: "gap_separated taken" and atl: "gap_separated tail"
    using gap_separated_append [of d "taken @ tail"] gap_separated_append [of taken tail]
    by (simp_all add: ch)
  have fd: "concat (map py_words d) = []" using d by (auto simp: py_words_gap_only)
  have wt: "py_words (concat taken) = concat (map py_words taken)"
    by (rule gap_separated_words [OF at])
  from c2 show ?thesis
  proof
    assume a: "cur2 = taken \<and> rest = tail"
    have "py_words (concat cur) = py_words (concat taken)"
    proof (cases "cur = cur2")
      case True
      with a show ?thesis by simp
    next
      case False
      with cur a have t: "taken \<noteq> []" "all_space (last taken)" "cur = butlast taken" by auto
      have "py_words (concat (butlast taken) @ last taken) = py_words (concat (butlast taken))"
        by (rule py_words_trailing_gap [OF t(2)])
      then show ?thesis by (simp add: t(3) concat_butlast [OF t(1), symmetric])
    qed
    with a wt fd atl bound show ?thesis by (auto simp: ch)
  next
    assume "\<exists>c cs e. tail = c # cs \<and> w < int (length c) \<and> cur2 = taken @ [take e c]
                   \<and> rest = drop e c # cs"
    then obtain c cs e where tl: "tail = c # cs" and big: "w < int (length c)"
      and cur2: "cur2 = taken @ [take e c]" and rest: "rest = drop e c # cs" by blast
    have "c \<in> set chunks" by (simp add: ch tl)
    with bound big have spc: "all_space c" by fastforce
    then have sp: "all_space (take e c)" "all_space (drop e c)"
      by (auto simp: all_space_def list_all_iff dest: in_set_takeD in_set_dropD)
    have "int (length (take e c)) \<le> w" using sm by (simp add: cur2)
    with big have "drop e c \<noteq> []" by auto
    with sp have g2: "is_gap (drop e c)" by (simp add: is_gap_def)
    from atl have "gap_separated cs" using gap_separated_append [of "[c]" cs] by (simp add: tl)
    with g2 have ar: "gap_separated rest" unfolding rest by (rule gap_separated_gap_Cons)
    have "py_words (concat cur) = py_words (concat taken)"
    proof (cases "cur = cur2")
      case True
      then show ?thesis using py_words_trailing_gap [OF sp(1), of "concat taken"]
        by (simp add: cur2)
    next
      case False
      with cur have "cur = butlast cur2" by simp
      then show ?thesis by (simp add: cur2)
    qed
    moreover have "concat (map py_words rest) = concat (map py_words tail)"
      using spc sp(2) by (simp add: rest tl py_words_gap_only)
    moreover have "\<forall>x\<in>set rest. all_space x \<or> int (length x) \<le> w"
      using bound sp(2) by (auto simp: rest ch tl)
    ultimately show ?thesis using wt fd ar by (simp add: ch)
  qed
qed

lemma wrap_chunks_words:
  "wrap_chunks w lns chunks = Inr res \<Longrightarrow> gap_separated chunks \<Longrightarrow>
   \<forall>x\<in>set chunks. all_space x \<or> int (length x) \<le> w \<Longrightarrow>
   concat (map py_words res) = concat (map py_words lns) @ concat (map py_words chunks)"
proof (induction w lns chunks rule: wrap_chunks.induct)
  case (1 width lns chunks)
  have pos: "0 < width" using "1.prems"(1) by (cases "0 < width") (simp_all add: wrap_chunks_invalid)
  show ?case
  proof (cases "chunks = []")
    case True
    with 1 pos show ?thesis by (simp add: wrap_chunks_nil)
  next
    case False
    obtain cur rest where ol: "one_line width (lns \<noteq> []) chunks = (cur, rest)"
      by (cases "one_line width (lns \<noteq> []) chunks")
    from one_line_words [OF ol False pos "1.prems"(2,3)]
    have w: "py_words (concat cur) @ concat (map py_words rest) = concat (map py_words chunks)"
      and ar: "gap_separated rest" and br: "\<forall>x\<in>set rest. all_space x \<or> int (length x) \<le> width"
      by blast+
    have "wrap_chunks width (if cur \<noteq> [] then lns @ [concat cur] else lns) rest = Inr res"
      using "1.prems"(1) by (simp add: wrap_chunks_step [OF pos False ol])
    from "1.IH" [OF _ False ol [symmetric] this ar br] pos
    have "concat (map py_words res)
        = concat (map py_words (if cur \<noteq> [] then lns @ [concat cur] else lns))
          @ concat (map py_words rest)"
      by simp
    also have "\<dots> = concat (map py_words lns) @ (py_words (concat cur) @ concat (map py_words rest))"
      by simp
    finally show ?thesis by (simp only: w)
  qed
qed

lemma munge_until_space:
  "0 < t \<Longrightarrow>
   takeWhile nonspace (map (\<lambda>c. if is_ws c then CHR '' '' else c) (expandtabs t j s))
     = takeWhile nonspace s
   \<and> (\<exists>j'. dropWhile nonspace (map (\<lambda>c. if is_ws c then CHR '' '' else c) (expandtabs t j s))
           = map (\<lambda>c. if is_ws c then CHR '' '' else c) (expandtabs t j' (dropWhile nonspace s)))"
proof (induction s arbitrary: j)
  case Nil
  then show ?case by simp
next
  case (Cons c cs)
  have sp: "py_isspace CHR '' ''" by (simp add: py_isspace_def)
  show ?case
  proof (cases "py_isspace c")
    case False
    then have "c \<noteq> CHR 0x09" "\<not> is_ws c" by (auto simp: py_isspace_def dest: is_ws_isspace)
    with False Cons show ?thesis by simp
  next
    case True
    show ?thesis
    proof (cases "c = CHR 0x09")
      case tab: True
      have "0 < t - j mod t" using Cons.prems by simp
      then obtain k where k: "t - j mod t = Suc k" by (cases "t - j mod t") auto
      have "\<exists>r. map (\<lambda>c. if is_ws c then CHR '' '' else c) (expandtabs t j (c # cs)) = CHR '' '' # r"
        using Cons.prems by (simp add: tab k)
      then obtain r where
        e: "map (\<lambda>c. if is_ws c then CHR '' '' else c) (expandtabs t j (c # cs)) = CHR '' '' # r"
        by (rule exE)
      have l: "takeWhile nonspace (map (\<lambda>c. if is_ws c then CHR '' '' else c) (expandtabs t j (c # cs))) = []"
        "dropWhile nonspace (map (\<lambda>c. if is_ws c then CHR '' '' else c) (expandtabs t j (c # cs)))
           = map (\<lambda>c. if is_ws c then CHR '' '' else c) (expandtabs t j (c # cs))"
        unfolding e using sp by simp_all
      have r: "takeWhile nonspace (c # cs) = []" "dropWhile nonspace (c # cs) = c # cs"
        using True by simp_all
      show ?thesis unfolding l r by (intro conjI exI [of _ j] refl)
    next
      case False
      have "py_isspace (if is_ws c then CHR '' '' else c)" using True sp by simp
      with False True show ?thesis
        by (auto intro!: exI [of _ j])
    qed
  qed
qed

lemma munge_words_aux:
  "0 < t \<Longrightarrow> py_words (map (\<lambda>c. if is_ws c then CHR '' '' else c) (expandtabs t j s)) = py_words s"
proof (induction s arbitrary: j rule: py_words.induct)
  case 1
  then show ?case by simp
next
  case (2 c cs)
  have sp: "py_isspace CHR '' ''" by (simp add: py_isspace_def)
  show ?case
  proof (cases "py_isspace c")
    case True
    note ih = "2.IH"(1) [OF True "2.prems"]
    show ?thesis
    proof (cases "c = CHR 0x09")
      case tab: True
      have "all_space (replicate (t - j mod t) CHR '' '')"
        by (simp add: all_space_def list_all_iff sp)
      then show ?thesis using True "2.prems" ih
        by (simp add: tab py_words_gap)
    next
      case False
      have "py_isspace (if is_ws c then CHR '' '' else c)" using True sp by simp
      with False True ih show ?thesis by simp
    qed
  next
    case False
    then have nt: "c \<noteq> CHR 0x09" "\<not> is_ws c" "c \<noteq> CHR 0x0A" "c \<noteq> CHR 0x0D"
      by (auto simp: py_isspace_def dest: is_ws_isspace)
    from munge_until_space [OF "2.prems", of "j + 1" cs] obtain j' where
      tw: "takeWhile nonspace (map (\<lambda>c. if is_ws c then CHR '' '' else c) (expandtabs t (j + 1) cs))
             = takeWhile nonspace cs"
      and dw: "dropWhile nonspace (map (\<lambda>c. if is_ws c then CHR '' '' else c) (expandtabs t (j + 1) cs))
             = map (\<lambda>c. if is_ws c then CHR '' '' else c) (expandtabs t j' (dropWhile nonspace cs))"
      by blast
    from "2.IH"(2) [OF False "2.prems", of j'] False nt tw dw show ?thesis by simp
  qed
qed

lemma munge_words: "py_words (munge_whitespace s) = py_words s"
  by (simp add: munge_whitespace_def munge_words_aux)

lemma wrap_words:
  assumes "wrap s w = Inr ls" and "undivided s" and "chunks_fit w s"
  shows "concat (map py_words ls) = py_words s"
proof -
  define chunks where "chunks = split (munge_whitespace s)"
  have gs: "gap_separated chunks" using assms(2) by (simp add: undivided_def chunks_def)
  have cc: "concat chunks = munge_whitespace s" by (simp add: chunks_def split_concat)
  have ws: "py_words s = concat (map py_words chunks)"
    using gap_separated_words [OF gs] by (simp add: cc munge_words)
  have "\<forall>x\<in>set chunks. all_space x \<or> int (length x) \<le> w"
    using assms(3) by (simp add: chunks_fit_def chunks_def)
  moreover have "wrap_chunks w [] chunks = Inr ls"
    using assms(1) by (simp add: wrap_def chunks_def)
  ultimately show ?thesis using wrap_chunks_words [OF _ gs] ws by simp
qed

lemma break_word_words:
  "break_word m frags = Inr ls \<Longrightarrow>
   \<forall>f\<in>set frags. undivided f \<and> chunks_fit m f \<Longrightarrow>
   concat (map py_words ls) = concat (map py_words frags)"
proof (induction frags arbitrary: ls)
  case Nil
  then show ?case by simp
next
  case (Cons f frags)
  from Cons.prems(1) obtain a b where a: "wrap f m = Inr a" and b: "break_word m frags = Inr b"
    and ls: "ls = a @ b" by (auto split: sum.splits)
  from Cons.prems(2) wrap_words [OF a] have "concat (map py_words a) = py_words f" by simp
  moreover from Cons.IH [OF b] Cons.prems(2)
  have "concat (map py_words b) = concat (map py_words frags)" by simp
  ultimately show ?case by (simp add: ls)
qed

lemma py_words_length: "x \<in> set (py_words s) \<Longrightarrow> length x \<le> length s"
proof (induction s rule: py_words.induct)
  case 1
  then show ?case by simp
next
  case (2 c cs)
  show ?case
  proof (cases "py_isspace c")
    case True
    with 2 show ?thesis by auto
  next
    case False
    with "2.prems" consider "x = c # takeWhile nonspace cs" | "x \<in> set (py_words (dropWhile nonspace cs))"
      by auto
    then show ?thesis
    proof cases
      case 1
      then show ?thesis using length_takeWhile_le [of nonspace cs] by simp
    next
      case 2
      from "2.IH"(2) [OF False this] length_dropWhile_le [of nonspace cs] show ?thesis by simp
    qed
  qed
qed

lemma long_word_cut:
  assumes "break_word m frags = Inr ls" and "f \<in> set frags" and "x \<in> set (py_words f)"
    and "m < int (length x)"
  shows "py_words (join_spaces ls) \<noteq> concat (map py_words frags)"
proof
  assume eq: "py_words (join_spaces ls) = concat (map py_words frags)"
  from assms(2,3) have "x \<in> set (concat (map py_words frags))" by auto
  with eq have "x \<in> set (concat (map py_words ls))" by (simp add: join_spaces_words)
  then obtain l where l: "l \<in> set ls" and x: "x \<in> set (py_words l)" by auto
  from break_word_length [OF assms(1) l] py_words_length [OF x] assms(4) show False by simp
qed


lemma py_words_pure: "x \<noteq> [] \<Longrightarrow> \<forall>c\<in>set x. nonspace c \<Longrightarrow> py_words x = [x]"
proof (cases x)
  case Nil
  then show "x \<noteq> [] \<Longrightarrow> ?thesis" by simp
next
  case (Cons a r)
  assume "\<forall>c\<in>set x. nonspace c"
  then have a: "nonspace a" and r: "\<forall>c\<in>set r. nonspace c" by (auto simp: Cons)
  from r have tw: "takeWhile nonspace r = r" and dw: "dropWhile nonspace r = []" by auto
  have "py_words (a # r) = (a # takeWhile nonspace r) # py_words (dropWhile nonspace r)"
    using a by simp
  also have "\<dots> = [a # r]" by (simp only: tw dw py_words.simps(1))
  finally show ?thesis by (simp only: Cons)
qed

lemma hyphen_not_ws: "is_hyphen c \<Longrightarrow> \<not> is_ws c"
  by (simp add: is_hyphen_def is_ws_def whitespace_def)

lemma scan_word_pure:
  "scan_word bef acc cs = (chunk, rest) \<Longrightarrow> \<forall>c\<in>set acc. \<not> is_ws c \<Longrightarrow> \<forall>c\<in>set chunk. \<not> is_ws c"
  by (induction bef acc cs rule: scan_word.induct) (auto split: if_splits dest: hyphen_not_ws)

lemma next_chunk_pure:
  assumes "next_chunk bef s = (chunk, rest)"
  shows "(\<forall>c\<in>set chunk. is_ws c) \<or> (\<forall>c\<in>set chunk. \<not> is_ws c)"
proof (cases s)
  case Nil
  with assms show ?thesis by simp
next
  case (Cons c cs)
  consider (ws) "is_ws c" | (dash) "\<not> is_ws c" "word_punct_behind bef \<and> emdash_ahead (c # cs)"
    | (word) "\<not> is_ws c" "\<not> (word_punct_behind bef \<and> emdash_ahead (c # cs))" by blast
  then show ?thesis
  proof cases
    case ws
    with assms have "chunk = takeWhile is_ws (c # cs)" by (simp add: Cons)
    then have "\<forall>x\<in>set chunk. is_ws x" using set_takeWhileD [of _ is_ws "c # cs"] by blast
    then show ?thesis ..
  next
    case dash
    with assms have "chunk = takeWhile is_hyphen (c # cs)" by (simp add: Cons)
    then have "\<forall>x\<in>set chunk. is_hyphen x" using set_takeWhileD [of _ is_hyphen "c # cs"] by blast
    then show ?thesis using hyphen_not_ws by blast
  next
    case word
    with assms have "scan_word (c # bef) [c] cs = (chunk, rest)" by (simp add: Cons)
    from scan_word_pure [OF this] word(1) show ?thesis by simp
  qed
qed

lemma split_chunks_pure:
  "x \<in> set (split_chunks bef s) \<Longrightarrow> (\<forall>c\<in>set x. is_ws c) \<or> (\<forall>c\<in>set x. \<not> is_ws c)"
proof (induction bef s rule: split_chunks.induct)
  case (1 bef)
  then show ?case by simp
next
  case (2 bef c cs)
  obtain chunk rest where nc: "next_chunk bef (c # cs) = (chunk, rest)"
    by (cases "next_chunk bef (c # cs)")
  from "2.prems" have "x = chunk \<or> x \<in> set (split_chunks (rev chunk @ bef) rest)"
    unfolding split_chunks_Cons [OF nc] by simp
  then show ?case
  proof
    assume "x = chunk"
    with next_chunk_pure [OF nc] show ?thesis by simp
  next
    assume "x \<in> set (split_chunks (rev chunk @ bef) rest)"
    from "2.IH" [OF nc [symmetric] this] show ?thesis .
  qed
qed

lemma expandtabs_set: "set (expandtabs t j s) \<subseteq> insert CHR '' '' (set s)"
  by (induction t j s rule: expandtabs.induct) auto

lemma munge_set: "c \<in> set (munge_whitespace s) \<Longrightarrow> \<not> is_ws c \<Longrightarrow> c \<in> set s"
proof -
  assume c: "c \<in> set (munge_whitespace s)" and n: "\<not> is_ws c"
  have sp: "is_ws CHR '' ''" by (simp add: is_ws_def whitespace_def)
  from c obtain d where d: "d \<in> set (expandtabs 8 0 s)" and cd: "c = (if is_ws d then CHR '' '' else d)"
    by (auto simp: munge_whitespace_def)
  from cd n sp have "c = d" by (cases "is_ws d") auto
  with d expandtabs_set [of 8 0 s] n sp show ?thesis by auto
qed

lemma words_fit_chunks_fit:
  assumes ud: "undivided f" and ws: "\<forall>c\<in>set f. py_isspace c \<longrightarrow> is_ws c"
    and fit: "\<forall>x\<in>set (py_words f). int (length x) \<le> w"
  shows "chunks_fit w f"
  unfolding chunks_fit_def
proof
  fix x assume x: "x \<in> set (split (munge_whitespace f))"
  define chunks where "chunks = split (munge_whitespace f)"
  have gs: "gap_separated chunks" using ud by (simp add: undivided_def chunks_def)
  have cc: "concat chunks = munge_whitespace f" by (simp add: chunks_def split_concat)
  from x have xs: "x \<in> set (split_chunks [] (munge_whitespace f))" by (simp add: split_eq)
  from split_chunks_pure [OF xs] show "all_space x \<or> int (length x) \<le> w"
  proof
    assume "\<forall>c\<in>set x. is_ws c"
    then show ?thesis by (auto simp: all_space_def list_all_iff dest: is_ws_isspace)
  next
    assume nw: "\<forall>c\<in>set x. \<not> is_ws c"
    have ne: "x \<noteq> []" by (rule split_chunks_nonempty [OF xs])
    have "nonspace c" if "c \<in> set x" for c
    proof -
      from that x have "c \<in> set (concat chunks)" by (auto simp: chunks_def)
      then have "c \<in> set (munge_whitespace f)" by (simp only: cc)
      with nw that have "c \<in> set f" "\<not> is_ws c" by (auto dest: munge_set)
      with ws show ?thesis by blast
    qed
    then have "py_words x = [x]" using py_words_pure [OF ne] by blast
    with x have "x \<in> set (concat (map py_words chunks))" by (force simp: chunks_def)
    then have "x \<in> set (py_words f)"
      using gap_separated_words [OF gs] by (simp add: cc munge_words)
    with fit show ?thesis by blast
  qed
qed

lemma hyphens_safe_tl: "hyphens_safe (c # cs) \<Longrightarrow> hyphens_safe cs"
  by (cases cs) auto

lemma hyphens_safe_dropWhile: "hyphens_safe s \<Longrightarrow> hyphens_safe (dropWhile P s)"
  by (induction s) (auto dest: hyphens_safe_tl)

lemma hyphens_safe_no_ahead: "hyphens_safe (c # cs) \<Longrightarrow> is_hyphen c \<Longrightarrow> \<not> hyphen_ahead cs"
  by (cases cs) (auto simp: hyphen_ahead_def split: list.splits)

lemma hyphens_safe_no_emdash: "hyphens_safe (c # cs) \<Longrightarrow> \<not> emdash_ahead (c # cs)"
  by (cases cs) (auto simp: emdash_ahead_def split: if_splits)

lemma scan_word_safe:
  "hyphens_safe cs \<Longrightarrow>
   scan_word bef acc cs = (rev acc @ takeWhile (\<lambda>c. \<not> is_ws c) cs, dropWhile (\<lambda>c. \<not> is_ws c) cs)"
proof (induction bef acc cs rule: scan_word.induct)
  case (1 bef acc)
  then show ?case by simp
next
  case (2 bef acc c cs)
  have a: "\<not> (is_hyphen c \<and> hyphen_behind bef \<and> hyphen_ahead cs)"
    using hyphens_safe_no_ahead [OF "2.prems"] by blast
  have b: "\<not> (word_punct_behind bef \<and> emdash_ahead (c # cs))"
    using hyphens_safe_no_emdash [OF "2.prems"] by blast
  show ?case
  proof (cases "is_ws c")
    case True
    with a show ?thesis by simp
  next
    case False
    from "2.IH" [OF a False b hyphens_safe_tl [OF "2.prems"]] show ?thesis
      by (simp add: a b False)
  qed
qed

lemma next_chunk_safe:
  assumes "hyphens_safe (c # cs)"
  shows "next_chunk bef (c # cs) =
     (if is_ws c then (takeWhile is_ws (c # cs), dropWhile is_ws (c # cs))
      else (c # takeWhile (\<lambda>c. \<not> is_ws c) cs, dropWhile (\<lambda>c. \<not> is_ws c) cs))"
  using hyphens_safe_no_emdash [OF assms] scan_word_safe [OF hyphens_safe_tl [OF assms]]
  by simp

lemma split_chunks_safe:
  "hyphens_safe s \<Longrightarrow>
   gap_separated (split_chunks bef s)
   \<and> (s \<noteq> [] \<and> is_ws (hd s) \<longrightarrow> split_chunks bef s \<noteq> [] \<and> is_gap (hd (split_chunks bef s)))"
proof (induction bef s rule: split_chunks.induct)
  case (1 bef)
  then show ?case by simp
next
  case (2 bef c cs)
  note nc = next_chunk_safe [OF "2.prems", of bef]
  show ?case
  proof (cases "is_ws c")
    case True
    define g where "g = takeWhile is_ws (c # cs)"
    define rest where "rest = dropWhile is_ws (c # cs)"
    have eq: "next_chunk bef (c # cs) = (g, rest)"
      unfolding nc g_def rest_def using True by (simp only: if_True)
    have gap: "is_gap g" unfolding g_def by (rule ws_run_gap [OF True])
    have "hyphens_safe rest" unfolding rest_def by (rule hyphens_safe_dropWhile [OF "2.prems"])
    from "2.IH" [OF eq [symmetric] this] have "gap_separated (split_chunks (rev g @ bef) rest)"
      by (rule conjunct1)
    with gap have "gap_separated (g # split_chunks (rev g @ bef) rest)"
      by (rule gap_separated_gap_Cons)
    with gap show ?thesis unfolding split_chunks_Cons [OF eq] by simp
  next
    case False
    define w where "w = c # takeWhile (\<lambda>c. \<not> is_ws c) cs"
    define rest where "rest = dropWhile (\<lambda>c. \<not> is_ws c) cs"
    have eq: "next_chunk bef (c # cs) = (w, rest)"
      unfolding nc w_def rest_def using False by (simp only: if_False)
    have "hyphens_safe rest" unfolding rest_def
      by (rule hyphens_safe_dropWhile [OF hyphens_safe_tl [OF "2.prems"]])
    from "2.IH" [OF eq [symmetric] this]
    have ih1: "gap_separated (split_chunks (rev w @ bef) rest)"
      and ih2: "rest \<noteq> [] \<and> is_ws (hd rest) \<longrightarrow>
         split_chunks (rev w @ bef) rest \<noteq> [] \<and> is_gap (hd (split_chunks (rev w @ bef) rest))"
      by blast+
    have hd_rest: "rest \<noteq> [] \<longrightarrow> is_ws (hd rest)"
      unfolding rest_def using hd_dropWhile [of "\<lambda>c. \<not> is_ws c" cs] by blast
    have "gap_separated (w # split_chunks (rev w @ bef) rest)"
    proof (cases "split_chunks (rev w @ bef) rest")
      case Nil
      then show ?thesis by simp
    next
      case (Cons g r)
      then have "rest \<noteq> []" by (cases rest) simp_all
      with hd_rest ih2 Cons have "is_gap g" by simp
      with ih1 Cons show ?thesis by simp
    qed
    with False show ?thesis unfolding split_chunks_Cons [OF eq] by simp
  qed
qed

lemma hyphens_safe_Cons: "\<not> is_hyphen x \<Longrightarrow> hyphens_safe ys \<Longrightarrow> hyphens_safe (x # ys)"
  by (cases ys) auto

lemma hyphens_safe_spaces: "hyphens_safe ys \<Longrightarrow> hyphens_safe (replicate k CHR '' '' @ ys)"
  by (induction k) (auto intro: hyphens_safe_Cons simp: is_hyphen_def)

lemma munge_hd:
  "0 < t \<Longrightarrow> \<exists>y ys. map (\<lambda>c. if is_ws c then CHR '' '' else c) (expandtabs t j (d # r)) = y # ys
                 \<and> (y = CHR '' '' \<or> y = d)"
proof (cases "d = CHR 0x09")
  case True
  assume "0 < t"
  then have "0 < t - j mod t" by simp
  then obtain k where k: "t - j mod t = Suc k" by (cases "t - j mod t") auto
  then show ?thesis using True \<open>0 < t\<close> by (simp add: is_ws_def whitespace_def)
next
  case False
  then show ?thesis by simp
qed

lemma munge_safe_aux:
  "hyphens_safe s \<Longrightarrow> 0 < t \<Longrightarrow>
   hyphens_safe (map (\<lambda>c. if is_ws c then CHR '' '' else c) (expandtabs t j s))"
proof (induction s arbitrary: j rule: hyphens_safe.induct)
  case 1
  then show ?case by simp
next
  case (2 c)
  then show ?case using hyphens_safe_spaces [of "[]"] by simp
next
  case (3 c d r)
  have sp: "\<not> is_hyphen CHR '' ''" "\<not> is_letter CHR '' ''"
    by (simp_all add: is_hyphen_def is_letter_def is_word_char_def)
  from "3.prems" have tl: "hyphens_safe (d # r)" by simp
  have ih: "hyphens_safe (map (\<lambda>c. if is_ws c then CHR '' '' else c) (expandtabs t j' (d # r)))" for j'
    by (rule "3.IH" [OF tl "3.prems"(2)])
  show ?case
  proof (cases "c = CHR 0x09")
    case True
    have "map (\<lambda>c. if is_ws c then CHR '' '' else c) (expandtabs t j (c # d # r))
        = replicate (t - j mod t) CHR '' ''
          @ map (\<lambda>c. if is_ws c then CHR '' '' else c) (expandtabs t (j + (t - j mod t)) (d # r))"
      using True "3.prems"(2) by (simp add: is_ws_def whitespace_def)
    then show ?thesis using hyphens_safe_spaces [OF ih] by simp
  next
    case False
    define j' where "j' = (if c = CHR 0x0A \<or> c = CHR 0x0D then 0 else j + 1)"
    define Y where "Y = map (\<lambda>c. if is_ws c then CHR '' '' else c) (expandtabs t j' (d # r))"
    have e: "map (\<lambda>c. if is_ws c then CHR '' '' else c) (expandtabs t j (c # d # r))
        = (if is_ws c then CHR '' '' else c) # Y"
      using False unfolding Y_def j'_def by (simp del: expandtabs.simps add: expandtabs.simps(2) [of t j c])
    have hy: "hyphens_safe Y" unfolding Y_def by (rule ih)
    from munge_hd [OF "3.prems"(2), of j' d r]
    have "\<exists>y ys. Y = y # ys \<and> (y = CHR '' '' \<or> y = d)" unfolding Y_def .
    then obtain y ys where y: "Y = y # ys" and yd: "y = CHR '' '' \<or> y = d" by blast
    show ?thesis
    proof (cases "is_hyphen (if is_ws c then CHR '' '' else c)")
      case False
      then show ?thesis unfolding e using hy by (rule hyphens_safe_Cons)
    next
      case True
      then have "is_hyphen c" using sp by (cases "is_ws c") auto
      with "3.prems"(1) have "\<not> is_letter d \<and> \<not> is_hyphen d" by simp
      with yd sp have "\<not> is_letter y \<and> \<not> is_hyphen y" by auto
      with hy show ?thesis unfolding e y by simp
    qed
  qed
qed

lemma safe_undivided: "hyphens_safe f \<Longrightarrow> undivided f"
  using munge_safe_aux [of f 8 0] split_chunks_safe [of "munge_whitespace f" "[]"]
  by (simp add: undivided_def split_eq munge_whitespace_def)

lemma no_hyphen_safe: "\<forall>c\<in>set f. \<not> is_hyphen c \<Longrightarrow> hyphens_safe f"
  by (induction f rule: hyphens_safe.induct) auto

subsection \<open>The fragments of a caption\<close>

lemma split_acc_no_sep:
  "\<not> contains sep s \<Longrightarrow> split_acc sep acc s = [rev acc @ s]"
  by (induction sep acc s rule: split_acc.induct) auto

lemma split_acc_token:
  "\<not> contains ''#%'' f \<Longrightarrow>
   split_acc ''#%'' acc (f @ ''#%'' @ rest) = (rev acc @ f) # split_acc ''#%'' [] rest"
proof (induction f arbitrary: acc)
  case Nil
  then show ?case by simp
next
  case (Cons c cs)
  from Cons.prems have np: "\<not> prefix ''#%'' (c # cs)" and nc: "\<not> contains ''#%'' cs" by simp_all
  have "\<not> prefix ''#%'' (c # cs @ ''#%'' @ rest)"
    using np by (cases cs) auto
  with Cons.IH [OF nc, of "c # acc"] show ?case by simp
qed

lemma py_split_join:
  "fs \<noteq> [] \<Longrightarrow> \<forall>f\<in>set fs. \<not> contains line_break f \<Longrightarrow>
   py_split (py_join line_break fs) line_break = fs"
proof (induction fs)
  case Nil
  then show ?case by simp
next
  case (Cons l fs)
  show ?case
  proof (cases fs)
    case Nil
    with Cons.prems show ?thesis by (simp add: py_split_def split_acc_no_sep)
  next
    case (Cons v va)
    with Cons.IH Cons.prems have "py_split (py_join line_break fs) line_break = fs" by simp
    moreover have "\<not> contains ''#%'' l" using Cons.prems by (simp add: line_break_def)
    ultimately show ?thesis
      using split_acc_token [of l "[]" "py_join line_break fs"] Cons
      by (simp add: py_split_def line_break_def)
  qed
qed

lemma text_lines_split: "text_lines txt = map rstrip (py_split txt line_break)"
  by (simp add: text_lines_def py_split_def split_acc_no_sep)

lemma text_lines_join:
  "fs \<noteq> [] \<Longrightarrow> \<forall>f\<in>set fs. \<not> contains line_break f \<Longrightarrow>
   text_lines (py_join line_break fs) = map rstrip fs"
  by (simp add: text_lines_split py_split_join)

lemma break_any_fits: "\<forall>l\<in>set ls. int (length l) \<le> m \<Longrightarrow> break_any m ls = Inr ls"
  by (induction ls) auto

lemma break_any_zero:
  "break_any 0 frags = (if \<forall>f\<in>set frags. f = [] then Inr frags else Inl ZeroDivisionError)"
  by (induction frags) (auto simp: chunk_str_def)

lemma break_any_negative: "m < 0 \<Longrightarrow> break_any m frags = Inr []"
proof (induction frags)
  case Nil
  then show ?case by simp
next
  case (Cons f frags)
  have "nat (py_ceil_div (length f) m) = 0"
    using py_ceil_div_nonpos [OF Cons.prems, of "length f"] by simp
  with Cons show ?case by (simp add: chunk_str_def)
qed

lemma chunk_str_hd:
  assumes "chunk_str cstr m = Inr cs" and "cs \<noteq> []"
  shows "hd cs = rstrip (take (nat m) cstr)"
proof -
  from assms have cs: "cs = map (chunk_at cstr (nat m)) [0 ..< nat (py_ceil_div (length cstr) m)]"
    by (auto simp: chunk_str_def Let_def split: if_splits)
  with assms(2) have "0 < nat (py_ceil_div (length cstr) m)" by auto
  then have "[0 ..< nat (py_ceil_div (length cstr) m)] = 0 # [1 ..< nat (py_ceil_div (length cstr) m)]"
    by (simp add: upt_conv_Cons)
  then have "hd cs = chunk_at cstr (nat m) 0" by (simp add: cs)
  then show ?thesis by (simp add: chunk_at_def)
qed

section \<open>Properties\<close>

subsection \<open>The label record builder\<close>

text \<open>
  Claim C1, as the code has it. In default mode the construction of a label record raises the
  error \<^verbatim>\<open>Text too long\<close> exactly when both strategies, the word-preserving wrap and then the
  hard-break fallback, return more than \<^verbatim>\<open>max_text_lines\<close> lines. With
  \<^verbatim>\<open>text_line_max_len = 21\<close> and \<^verbatim>\<open>max_text_lines = 4\<close>, a caption of five words of 21
  characters each (a word is a string without whitespace), with single spaces between them,
  fails construction in both modes, provided the caption does not contain the line-break
  token \<^verbatim>\<open>#%\<close>: the wrapped lines keep all 105 characters of the words and hold at most 21
  characters each, and the hard break cuts the 109 characters into six chunks.
\<close>

theorem text_too_long_iff:
  "(LabelData_init False today u txt m = Inl (TextTooLong t)
      \<longleftrightarrow> t = txt
          \<and> (\<exists>w a. break_word (text_line_max_len m) (text_lines txt) = Inr w
                 \<and> max_text_lines m < int (length w)
                 \<and> break_any (text_line_max_len m) (text_lines txt) = Inr a
                 \<and> max_text_lines m < int (length a)))
   \<and> (length wa = 21 \<and> length wb = 21 \<and> length wc = 21 \<and> length wd = 21 \<and> length we = 21
        \<and> (\<forall>c\<in>set (wa @ wb @ wc @ wd @ we). nonspace c)
        \<and> \<not> contains line_break (wa @ '' '' @ wb @ '' '' @ wc @ '' '' @ wd @ '' '' @ we)
        \<and> text_line_max_len m = 21 \<and> max_text_lines m = 4
      \<longrightarrow> LabelData_init break_on_any today u
            (wa @ '' '' @ wb @ '' '' @ wc @ '' '' @ wd @ '' '' @ we) m
          = Inl (TextTooLong (wa @ '' '' @ wb @ '' '' @ wc @ '' '' @ wd @ '' '' @ we)))"
proof (intro conjI impI)
  show "LabelData_init False today u txt m = Inl (TextTooLong t)
      \<longleftrightarrow> t = txt
          \<and> (\<exists>w a. break_word (text_line_max_len m) (text_lines txt) = Inr w
                 \<and> max_text_lines m < int (length w)
                 \<and> break_any (text_line_max_len m) (text_lines txt) = Inr a
                 \<and> max_text_lines m < int (length a))"
  proof (cases "break_word (text_line_max_len m) (text_lines txt)")
    case (Inl e)
    have "e \<noteq> TextTooLong t"
    proof -
      have "break_word w ls = Inl e \<Longrightarrow> e = InvalidWidth w" for w ls
      proof (induction ls)
        case Nil
        then show ?case by simp
      next
        case (Cons l ls)
        then show ?case
          using wrap_total [of w l] wrap_invalid [of w l]
          by (cases "0 < w") (auto split: sum.splits)
      qed
      with Inl show ?thesis by auto
    qed
    with Inl show ?thesis
      by (auto simp: LabelData_init_def broken_lines_def)
  next
    case (Inr w)
    show ?thesis
    proof (cases "break_any (text_line_max_len m) (text_lines txt)")
      case (Inl e)
      have "e \<noteq> TextTooLong t"
      proof -
        have "break_any w ls = Inl e \<Longrightarrow> e = ZeroDivisionError" for w ls
          by (induction ls) (auto simp: chunk_str_def Let_def split: sum.splits if_splits)
        with Inl show ?thesis by auto
      qed
      with Inl Inr show ?thesis
        by (auto simp: LabelData_init_def broken_lines_def)
    next
      case a: (Inr a)
      with Inr show ?thesis
        by (auto simp: LabelData_init_def broken_lines_def)
    qed
  qed
next
  define cap where "cap = wa @ '' '' @ wb @ '' '' @ wc @ '' '' @ wd @ '' '' @ we"
  assume h: "length wa = 21 \<and> length wb = 21 \<and> length wc = 21 \<and> length wd = 21 \<and> length we = 21
        \<and> (\<forall>c\<in>set (wa @ wb @ wc @ wd @ we). nonspace c)
        \<and> \<not> contains line_break (wa @ '' '' @ wb @ '' '' @ wc @ '' '' @ wd @ '' '' @ we)
        \<and> text_line_max_len m = 21 \<and> max_text_lines m = 4"
  then have len: "length cap = 109" by (simp add: cap_def)
  have sp: "py_isspace CHR '' ''" by (simp add: py_isspace_def)
  have fw: "filter nonspace w = w" if "set w \<subseteq> set (wa @ wb @ wc @ wd @ we)" for w
    using that h by (intro filter_True) auto
  have ns: "length (filter nonspace cap) = 105"
    using h by (simp add: cap_def sp fw)
  have "we \<noteq> []" using h by auto
  then have "last cap = last we" by (simp add: cap_def)
  moreover have "nonspace (last we)" using h \<open>we \<noteq> []\<close> by (metis UnCI last_in_set set_append)
  ultimately have rs: "rstrip cap = cap" by (intro rstrip_id) simp
  have "\<not> contains line_break cap" unfolding cap_def using h by blast
  then have tl: "text_lines cap = [cap]"
    by (simp add: text_lines_plain rs)
  obtain ls where w: "wrap cap 21 = Inr ls" using wrap_total [of 21 cap] by auto
  from wrap_count [OF w] ns have wl: "4 < int (length ls)" by simp
  have "py_ceil_div (length cap) 21 = 6"
    using py_ceil_div_exact [of 21 "length cap"] by (simp add: len)
  then have cs: "chunk_str cap 21 = Inr (map (chunk_at cap 21) [0 ..< 6])"
    by (simp add: chunk_str_def)
  have "broken_lines break_on_any m cap = Inl (TextTooLong cap)"
    using h wl by (simp add: broken_lines_def tl w cs len)
  then show "LabelData_init break_on_any today u
            (wa @ '' '' @ wb @ '' '' @ wc @ '' '' @ wd @ '' '' @ we) m
          = Inl (TextTooLong (wa @ '' '' @ wb @ '' '' @ wc @ '' '' @ wd @ '' '' @ we))"
    by (simp add: LabelData_init_def cap_def)
qed

text \<open>
  Words that contain the line-break token are cut into fragments first: these five words of
  21 characters leave the fragments \<^verbatim>\<open>a b\<close>, \<^verbatim>\<open>c d\<close> and \<^verbatim>\<open>e\<close> (and empty ones), and the record
  is constructed.
\<close>

theorem text_too_long_counterexample:
  "map_sum id (map line_text \<circ> lines)
     (LabelData_init False ''24-06-01'' ''https://example.com''
        ''#%#%#%#%#%#%#%#%#%#%a b#%#%#%#%#%#%#%#%#%#% #%#%#%#%#%#%#%#%#%#%c d#%#%#%#%#%#%#%#%#%#% #%#%#%#%#%#%#%#%#%#%e''
        avery_5160)
   = Inr [''a b'', ''c d'', ''e'', ''24-06-01'']
   \<and> py_words ''#%#%#%#%#%#%#%#%#%#%a b#%#%#%#%#%#%#%#%#%#% #%#%#%#%#%#%#%#%#%#%c d#%#%#%#%#%#%#%#%#%#% #%#%#%#%#%#%#%#%#%#%e''
     = [''#%#%#%#%#%#%#%#%#%#%a'', ''b#%#%#%#%#%#%#%#%#%#%'', ''#%#%#%#%#%#%#%#%#%#%c'',
        ''d#%#%#%#%#%#%#%#%#%#%'', ''#%#%#%#%#%#%#%#%#%#%e'']
   \<and> map length [''#%#%#%#%#%#%#%#%#%#%a'', ''b#%#%#%#%#%#%#%#%#%#%'', ''#%#%#%#%#%#%#%#%#%#%c'',
        ''d#%#%#%#%#%#%#%#%#%#%'', ''#%#%#%#%#%#%#%#%#%#%e''] = [21, 21, 21, 21, 21]
   \<and> text_line_max_len avery_5160 = 21 \<and> max_text_lines avery_5160 = 4"
  by code_simp

theorem text_too_long_iff_witness:
  "LabelData_init False ''24-06-01'' ''https://example.com'' ''abcdefghijklmnopqrstu abcdefghijklmnopqrstu abcdefghijklmnopqrstu abcdefghijklmnopqrstu abcdefghijklmnopqrstu'' avery_5160 = Inl (TextTooLong ''abcdefghijklmnopqrstu abcdefghijklmnopqrstu abcdefghijklmnopqrstu abcdefghijklmnopqrstu abcdefghijklmnopqrstu'')"
proof -
  have h: "length ''abcdefghijklmnopqrstu'' = 21 \<and> length ''abcdefghijklmnopqrstu'' = 21 \<and> length ''abcdefghijklmnopqrstu'' = 21 \<and> length ''abcdefghijklmnopqrstu'' = 21 \<and> length ''abcdefghijklmnopqrstu'' = 21
        \<and> (\<forall>c\<in>set (''abcdefghijklmnopqrstu'' @ ''abcdefghijklmnopqrstu'' @ ''abcdefghijklmnopqrstu'' @ ''abcdefghijklmnopqrstu'' @ ''abcdefghijklmnopqrstu''). nonspace c)
        \<and> \<not> contains line_break (''abcdefghijklmnopqrstu'' @ '' '' @ ''abcdefghijklmnopqrstu'' @ '' '' @ ''abcdefghijklmnopqrstu'' @ '' '' @ ''abcdefghijklmnopqrstu'' @ '' '' @ ''abcdefghijklmnopqrstu'')
        \<and> text_line_max_len avery_5160 = 21 \<and> max_text_lines avery_5160 = 4"
    by (simp add: avery_5160_def line_break_def py_isspace_def)
  from text_too_long_iff [THEN conjunct2, rule_format, OF h, of False "''24-06-01''" "''https://example.com''"]
  show ?thesis by simp
qed

text \<open>
  Claim C3. A caption is the fragments \<open>fs\<close>, none of which contains the line-break token,
  joined by the token; the fragments that are wrapped are these, right-stripped. In default
  mode, when the word-preserving wrap of the fragments returns more than \<^verbatim>\<open>max_text_lines\<close>
  lines \<open>w\<close>, the lines used from then on are those of the hard-break strategy applied to the
  fragments, which are then checked against \<^verbatim>\<open>max_text_lines\<close>. They are not the hard break of
  the wrapped lines: that would return \<open>w\<close> itself, which has too many lines.
\<close>

theorem fallback_on_fragments:
  "fs \<noteq> [] \<and> (\<forall>f\<in>set fs. \<not> contains line_break f)
   \<and> break_word (text_line_max_len m) (map rstrip fs) = Inr w
   \<and> max_text_lines m < int (length w)
   \<longrightarrow> text_lines (py_join line_break fs) = map rstrip fs
     \<and> broken_lines False m (py_join line_break fs)
         = (case break_any (text_line_max_len m) (map rstrip fs) of
              Inl e \<Rightarrow> Inl e
            | Inr a \<Rightarrow> if max_text_lines m < int (length a)
                       then Inl (TextTooLong (py_join line_break fs)) else Inr a)
     \<and> break_any (text_line_max_len m) w = Inr w"
proof (intro impI conjI)
  assume a: "fs \<noteq> [] \<and> (\<forall>f\<in>set fs. \<not> contains line_break f)
   \<and> break_word (text_line_max_len m) (map rstrip fs) = Inr w
   \<and> max_text_lines m < int (length w)"
  then show tl: "text_lines (py_join line_break fs) = map rstrip fs"
    by (simp add: text_lines_join)
  from a show "broken_lines False m (py_join line_break fs)
         = (case break_any (text_line_max_len m) (map rstrip fs) of
              Inl e \<Rightarrow> Inl e
            | Inr a \<Rightarrow> if max_text_lines m < int (length a)
                       then Inl (TextTooLong (py_join line_break fs)) else Inr a)"
    by (simp add: broken_lines_def tl)
  from a have "\<forall>l\<in>set w. int (length l) \<le> text_line_max_len m"
    using break_word_length by blast
  then show "break_any (text_line_max_len m) w = Inr w" by (rule break_any_fits)
qed

text \<open>
  With four characters a line and three lines, the caption \<^verbatim>\<open>ab cd ef  #%gh\<close> has the fragments
  \<^verbatim>\<open>ab cd ef\<close> and \<^verbatim>\<open>gh\<close>, which wrap into four lines; the hard break of the fragments gives
  three lines, where the hard break of the four wrapped lines gives the same four lines.
\<close>

theorem fallback_on_fragments_witness:
  "text_lines ''ab cd ef  #%gh'' = [''ab cd ef'', ''gh'']
   \<and> break_word 4 [''ab cd ef'', ''gh''] = Inr [''ab'', ''cd'', ''ef'', ''gh'']
   \<and> broken_lines False (avery_5160\<lparr>text_line_max_len := 4, max_text_lines := 3\<rparr>)
        ''ab cd ef  #%gh'' = Inr [''ab c'', ''d ef'', ''gh'']
   \<and> break_any 4 [''ab'', ''cd'', ''ef'', ''gh''] = Inr [''ab'', ''cd'', ''ef'', ''gh'']"
proof -
  have j: "py_join line_break [''ab cd ef  '', ''gh''] = ''ab cd ef  #%gh''" by code_simp
  have r: "map rstrip [''ab cd ef  '', ''gh''] = [''ab cd ef'', ''gh'']" by code_simp
  have w: "break_word 4 [''ab cd ef'', ''gh''] = Inr [''ab'', ''cd'', ''ef'', ''gh'']" by code_simp
  have a: "break_any 4 [''ab cd ef'', ''gh''] = Inr [''ab c'', ''d ef'', ''gh'']" by code_simp
  have h1: "[''ab cd ef  '', ''gh''] \<noteq> []" by simp
  have h2: "\<forall>f\<in>set [''ab cd ef  '', ''gh'']. \<not> contains line_break f" by code_simp
  have h3: "break_word (text_line_max_len (avery_5160\<lparr>text_line_max_len := 4, max_text_lines := 3\<rparr>))
          (map rstrip [''ab cd ef  '', ''gh'']) = Inr [''ab'', ''cd'', ''ef'', ''gh'']"
    by code_simp
  have h4: "max_text_lines (avery_5160\<lparr>text_line_max_len := 4, max_text_lines := 3\<rparr>)
          < int (length [''ab'', ''cd'', ''ef'', ''gh''])"
    by simp
  from h1 h2 h3 h4 have h: "[''ab cd ef  '', ''gh''] \<noteq> [] \<and> (\<forall>f\<in>set [''ab cd ef  '', ''gh'']. \<not> contains line_break f)
     \<and> break_word (text_line_max_len (avery_5160\<lparr>text_line_max_len := 4, max_text_lines := 3\<rparr>))
          (map rstrip [''ab cd ef  '', ''gh'']) = Inr [''ab'', ''cd'', ''ef'', ''gh'']
     \<and> max_text_lines (avery_5160\<lparr>text_line_max_len := 4, max_text_lines := 3\<rparr>)
          < int (length [''ab'', ''cd'', ''ef'', ''gh''])"
    by blast
  have t: "text_line_max_len (avery_5160\<lparr>text_line_max_len := 4, max_text_lines := 3\<rparr>) = 4"
    by simp
  note R = fallback_on_fragments [rule_format, OF h, unfolded j r t a]
  from R w show ?thesis by simp
qed

text \<open>
  Claim C4, as the code has it. Every label record that is constructed holds the lines of the
  caption, at most \<^verbatim>\<open>max_text_lines\<close> of them and each at most \<^verbatim>\<open>text_line_max_len\<close> characters
  long, followed by the timestamp line when the template enables it. The timestamp line is
  appended after the check and is subject to neither bound, so the record holds at most
  \<^verbatim>\<open>max_text_lines + 1\<close> lines with the timestamp and at most \<^verbatim>\<open>max_text_lines\<close> without it.
\<close>

theorem record_bounds_with_timestamp:
  "LabelData_init break_on_any today u txt m = Inr d \<Longrightarrow>
   (\<exists>cap. lines d = map (\<lambda>line. \<lparr>line_text = line, font_name = font m, line_font_size = font_size m\<rparr>) cap
                     @ (if include_timestamp m
                        then [\<lparr>line_text = today, font_name = font m,
                               line_font_size = subtext_font_size m\<rparr>]
                        else [])
        \<and> int (length cap) \<le> max_text_lines m
        \<and> (\<forall>l\<in>set cap. int (length l) \<le> text_line_max_len m))
   \<and> int (length (lines d)) \<le> max_text_lines m + (if include_timestamp m then 1 else 0)
   \<and> url d = u \<and> meta d = m"
proof -
  assume a: "LabelData_init break_on_any today u txt m = Inr d"
  then obtain b where b: "broken_lines break_on_any m txt = Inr b"
    and d: "d = \<lparr>url = u,
               lines = map (\<lambda>line. \<lparr>line_text = line, font_name = font m,
                                     line_font_size = font_size m\<rparr>) b
                       @ (if include_timestamp m
                          then [\<lparr>line_text = today, font_name = font m,
                                 line_font_size = subtext_font_size m\<rparr>]
                          else []),
               meta = m\<rparr>"
    by (auto simp: LabelData_init_def split: sum.splits)
  have 1: "int (length b) \<le> max_text_lines m" by (rule broken_lines_bound [OF b])
  have 2: "\<forall>l\<in>set b. int (length l) \<le> text_line_max_len m"
    using broken_lines_length [OF b] by blast
  show ?thesis
  proof (intro conjI)
    show "\<exists>cap. lines d = map (\<lambda>line. \<lparr>line_text = line, font_name = font m, line_font_size = font_size m\<rparr>) cap
                     @ (if include_timestamp m
                        then [\<lparr>line_text = today, font_name = font m,
                               line_font_size = subtext_font_size m\<rparr>]
                        else [])
        \<and> int (length cap) \<le> max_text_lines m
        \<and> (\<forall>l\<in>set cap. int (length l) \<le> text_line_max_len m)"
      using 1 2 by (intro exI [of _ b]) (simp add: d)
    show "int (length (lines d)) \<le> max_text_lines m + (if include_timestamp m then 1 else 0)"
      using 1 by (simp add: d)
  qed (simp_all add: d)
qed

text \<open>
  With the template \<^verbatim>\<open>avery-5160\<close> (four lines, timestamp enabled) a caption of four fragments
  gives a record of five lines.
\<close>

theorem record_bounds_counterexample:
  "map_sum id (map line_text \<circ> lines)
     (LabelData_init False ''24-06-01'' ''https://example.com'' ''a#%b#%c#%d'' avery_5160)
   = Inr [''a'', ''b'', ''c'', ''d'', ''24-06-01'']
   \<and> max_text_lines avery_5160 = 4"
  by code_simp

theorem record_bounds_with_timestamp_witness:
  "map_sum id (map line_text \<circ> lines)
     (LabelData_init False ''24-06-01'' ''https://example.com'' ''Hello World'' avery_5160)
   = Inr [''Hello World'', ''24-06-01'']"
proof -
  have e: "LabelData_init False ''24-06-01'' ''https://example.com'' ''Hello World'' avery_5160
    = Inr \<lparr>url = ''https://example.com'',
           lines = [\<lparr>line_text = ''Hello World'', font_name = ''Roboto'', line_font_size = 9\<rparr>,
                    \<lparr>line_text = ''24-06-01'', font_name = ''Roboto'', line_font_size = 6\<rparr>],
           meta = avery_5160\<rparr>"
    by code_simp
  from record_bounds_with_timestamp [OF e] e show ?thesis by simp
qed

subsection \<open>The two breaking strategies\<close>

text \<open>
  Claim C2, as the code has it. Whenever hard-break mode returns, every line is at most
  \<^verbatim>\<open>max_len\<close> characters long and has no trailing whitespace. It returns for every caption when
  \<^verbatim>\<open>max_len\<close> is not zero; for a negative \<^verbatim>\<open>max_len\<close> it returns no line at all, and for
  \<^verbatim>\<open>max_len = 0\<close> it raises \<^verbatim>\<open>ZeroDivisionError\<close> unless every fragment is empty. A fragment that
  fits is returned as it is, in its place, with its leading whitespace; a longer fragment is
  replaced by the chunks of \<^verbatim>\<open>chunk_str\<close>. The first chunk is the first \<^verbatim>\<open>max_len\<close> characters
  right-stripped, so it keeps the leading whitespace of the fragment. A continuation chunk
  (index above zero) does not begin with a space, provided the text does not have two spaces
  at the position of the cut.
\<close>

theorem hard_break_lines:
  "(break_any max_len (text_lines caption) = Inr ls \<longrightarrow>
      (\<forall>l\<in>set ls. int (length l) \<le> max_len \<and> rstrip l = l))
   \<and> (max_len \<noteq> 0 \<longrightarrow> (\<exists>res. break_any max_len (text_lines caption) = Inr res))
   \<and> (max_len < 0 \<longrightarrow> break_any max_len frags = Inr [])
   \<and> (max_len = 0 \<longrightarrow>
        break_any max_len frags
          = (if \<forall>f\<in>set frags. f = [] then Inr frags else Inl ZeroDivisionError))
   \<and> (int (length f) \<le> max_len \<longrightarrow>
        break_any max_len (pre @ f # post)
          = (case break_any max_len pre of
               Inl e \<Rightarrow> Inl e
             | Inr a \<Rightarrow> (case break_any max_len post of
                          Inl e \<Rightarrow> Inl e | Inr b \<Rightarrow> Inr (a @ f # b))))
   \<and> (max_len < int (length f) \<longrightarrow>
        break_any max_len (pre @ f # post)
          = (case break_any max_len pre of
               Inl e \<Rightarrow> Inl e
             | Inr a \<Rightarrow> (case chunk_str f max_len of
                          Inl e \<Rightarrow> Inl e
                        | Inr w \<Rightarrow> (case break_any max_len post of
                                     Inl e \<Rightarrow> Inl e | Inr b \<Rightarrow> Inr (a @ w @ b)))))
   \<and> (chunk_str cstr max_len = Inr cs \<and> cs \<noteq> [] \<longrightarrow> hd cs = rstrip (take (nat max_len) cstr))
   \<and> (chunk_str cstr max_len = Inr cs \<and> 0 < idx \<and> idx < length cs
        \<and> take 2 (drop (idx * nat max_len) cstr) \<noteq> ''  ''
      \<longrightarrow> \<not> startswith_space (cs ! idx))"
proof (intro conjI impI)
  assume "break_any max_len (text_lines caption) = Inr ls"
  then show "\<forall>l\<in>set ls. int (length l) \<le> max_len \<and> rstrip l = l"
    using break_any_lines [of max_len "text_lines caption" ls] text_lines_rstrip [of _ caption]
    by blast
next
  assume "max_len \<noteq> 0"
  then show "\<exists>res. break_any max_len (text_lines caption) = Inr res"
    by (rule break_any_total)
next
  assume "max_len < 0"
  then show "break_any max_len frags = Inr []" by (rule break_any_negative)
next
  assume "max_len = 0"
  then show "break_any max_len frags
          = (if \<forall>f\<in>set frags. f = [] then Inr frags else Inl ZeroDivisionError)"
    by (simp only: break_any_zero)
next
  assume "int (length f) \<le> max_len"
  then show "break_any max_len (pre @ f # post)
          = (case break_any max_len pre of
               Inl e \<Rightarrow> Inl e
             | Inr a \<Rightarrow> (case break_any max_len post of
                          Inl e \<Rightarrow> Inl e | Inr b \<Rightarrow> Inr (a @ f # b)))"
    by (simp add: break_any_append split: sum.splits)
next
  assume "max_len < int (length f)"
  then show "break_any max_len (pre @ f # post)
          = (case break_any max_len pre of
               Inl e \<Rightarrow> Inl e
             | Inr a \<Rightarrow> (case chunk_str f max_len of
                          Inl e \<Rightarrow> Inl e
                        | Inr w \<Rightarrow> (case break_any max_len post of
                                     Inl e \<Rightarrow> Inl e | Inr b \<Rightarrow> Inr (a @ w @ b))))"
    by (simp add: break_any_append split: sum.splits)
next
  assume "chunk_str cstr max_len = Inr cs \<and> cs \<noteq> []"
  then show "hd cs = rstrip (take (nat max_len) cstr)"
    using chunk_str_hd by blast
next
  assume a: "chunk_str cstr max_len = Inr cs \<and> 0 < idx \<and> idx < length cs
        \<and> take 2 (drop (idx * nat max_len) cstr) \<noteq> ''  ''"
  then have cs: "cs = map (chunk_at cstr (nat max_len)) [0 ..< nat (py_ceil_div (length cstr) max_len)]"
    by (auto simp: chunk_str_def Let_def split: if_splits)
  with a have "cs ! idx = chunk_at cstr (nat max_len) idx" by simp
  with a chunk_at_no_leading_space [of idx "nat max_len" cstr]
  show "\<not> startswith_space (cs ! idx)" by simp
qed

text \<open>
  A fragment that follows the line-break token and begins with a space is returned as it is:
  the second line begins with a space. (A cut that is followed by two spaces is outside the
  statement above: \<^verbatim>\<open>chunk_str\<close> removes one space only, and \<^verbatim>\<open>abcd  ef\<close> cut every four
  characters has the continuation chunk \<^verbatim>\<open> ef\<close>.)
\<close>

theorem hard_break_lines_counterexample:
  "break_any 4 (text_lines ''ab#% cd'') = Inr [''ab'', '' cd'']
   \<and> startswith_space ([''ab'', '' cd''] ! 1)
   \<and> break_any 4 (text_lines ''abcd  ef'') = Inr [''abcd'', '' ef'']"
  by code_simp

theorem hard_break_lines_witness:
  "break_any 5 (text_lines ''  abc def#% x'') = Inr [''  abc'', ''def'', '' x'']
   \<and> chunk_str ''  abc def'' 5 = Inr [''  abc'', ''def'']
   \<and> hd [''  abc'', ''def''] = rstrip (take 5 ''  abc def'')
   \<and> \<not> startswith_space ([''  abc'', ''def''] ! 1)
   \<and> break_any 0 (text_lines ''a'') = Inl ZeroDivisionError
   \<and> break_any (- 1) (text_lines ''a'') = Inr []"
proof -
  have tl: "text_lines ''  abc def#% x'' = [] @ ''  abc def'' # [ '' x'']" by code_simp
  have b: "break_any 5 (text_lines ''  abc def#% x'') = Inr [''  abc'', ''def'', '' x'']"
    by code_simp
  have c: "chunk_str ''  abc def'' 5 = Inr [''  abc'', ''def'']"
    by code_simp
  have h: "chunk_str ''  abc def'' 5 = Inr [''  abc'', ''def''] \<and> 0 < (1::nat)
      \<and> 1 < length [''  abc'', ''def'']
      \<and> take 2 (drop (1 * nat 5) ''  abc def'') \<noteq> ''  ''"
    using c by simp
  have h0: "chunk_str ''  abc def'' 5 = Inr [''  abc'', ''def''] \<and> [''  abc'', ''def''] \<noteq> []"
    using c by simp
  have ta: "text_lines ''a'' = [''a'']" by code_simp
  note T = hard_break_lines [of 5 "''  abc def#% x''" "[''  abc'', ''def'', '' x'']" "[]"
      "'' x''" "[''  abc def'']" "[]" "''  abc def''" "[''  abc'', ''def'']" 1]
  note Z = hard_break_lines [of 0 "''a''" "[]" "[''a'']" "[]" "[]" "[]" "[]" "[]" 0]
  note N = hard_break_lines [of "- 1" "''a''" "[]" "[''a'']" "[]" "[]" "[]" "[]" "[]" 0]
  from T b have 1: "\<forall>l\<in>set [''  abc'', ''def'', '' x'']. int (length l) \<le> 5 \<and> rstrip l = l"
    by blast
  from T h0 have 2: "hd [''  abc'', ''def''] = rstrip (take (nat 5) ''  abc def'')" by blast
  from T h have 3: "\<not> startswith_space ([''  abc'', ''def''] ! 1)" by blast
  from Z have 4: "break_any 0 [''a''] = Inl ZeroDivisionError" by simp
  from N have 5: "break_any (- 1) [''a''] = Inr []" by simp
  from 1 2 3 4 5 b c ta show ?thesis by simp
qed

text \<open>
  Claim C5, as the code has it. \<^verbatim>\<open>textwrap.wrap\<close> is called with its default options, which
  break a word that is longer than the width and allow a break after a hyphen inside a word.
  For every list of fragments the word-preserving strategy returns when the width is positive,
  and the characters of the lines that are not whitespace are those of the fragments, in the
  same order: no character of a word is dropped, reordered or duplicated. The lines joined
  with single spaces have exactly the words of the fragments, in the same order, whenever
  the chunks into which \<^verbatim>\<open>textwrap\<close> splits each fragment are separated by whitespace and
  every chunk that is not whitespace is at most \<^verbatim>\<open>max_len\<close> characters long. Whenever a word
  of a fragment is longer than \<^verbatim>\<open>max_len\<close>, the lines do not have the words of the fragments.
  The chunks of a fragment are separated by whitespace when none of its hyphens is directly
  followed by a letter or by another hyphen; and for such a fragment they fit the width when
  all its whitespace is of the six characters that \<^verbatim>\<open>textwrap\<close> treats as whitespace
  and every word is at most \<^verbatim>\<open>max_len\<close> characters long.
\<close>

theorem word_wrap_keeps_words:
  "(0 < max_len \<longrightarrow> (\<exists>res. break_word max_len frags = Inr res))
   \<and> (break_word max_len frags = Inr ls \<longrightarrow>
        filter nonspace (concat ls) = filter nonspace (concat frags))
   \<and> (break_word max_len frags = Inr ls
        \<and> (\<forall>f\<in>set frags. undivided f \<and> chunks_fit max_len f)
      \<longrightarrow> py_words (join_spaces ls) = concat (map py_words frags))
   \<and> (break_word max_len frags = Inr ls
        \<and> (\<exists>f\<in>set frags. \<exists>x\<in>set (py_words f). max_len < int (length x))
      \<longrightarrow> py_words (join_spaces ls) \<noteq> concat (map py_words frags))
   \<and> (hyphens_safe f \<longrightarrow> undivided f)
   \<and> (undivided f \<and> (\<forall>c\<in>set f. py_isspace c \<longrightarrow> is_ws c)
        \<and> (\<forall>x\<in>set (py_words f). int (length x) \<le> max_len)
      \<longrightarrow> chunks_fit max_len f)"
proof (intro conjI impI)
  assume "0 < max_len"
  then show "\<exists>res. break_word max_len frags = Inr res" by (rule break_word_total)
next
  assume "break_word max_len frags = Inr ls"
  then show "filter nonspace (concat ls) = filter nonspace (concat frags)"
    by (rule break_word_chars)
next
  assume a: "break_word max_len frags = Inr ls
        \<and> (\<forall>f\<in>set frags. undivided f \<and> chunks_fit max_len f)"
  then have "concat (map py_words ls) = concat (map py_words frags)"
    using break_word_words [of max_len frags ls] by blast
  then show "py_words (join_spaces ls) = concat (map py_words frags)"
    by (simp only: join_spaces_words)
next
  assume a: "break_word max_len frags = Inr ls
        \<and> (\<exists>f\<in>set frags. \<exists>x\<in>set (py_words f). max_len < int (length x))"
  then obtain g x where "g \<in> set frags" "x \<in> set (py_words g)" "max_len < int (length x)"
    by blast
  with a show "py_words (join_spaces ls) \<noteq> concat (map py_words frags)"
    using long_word_cut [of max_len frags ls g x] by blast
next
  assume "hyphens_safe f"
  then show "undivided f" by (rule safe_undivided)
next
  assume "undivided f \<and> (\<forall>c\<in>set f. py_isspace c \<longrightarrow> is_ws c)
        \<and> (\<forall>x\<in>set (py_words f). int (length x) \<le> max_len)"
  then show "chunks_fit max_len f" using words_fit_chunks_fit [of f max_len] by blast
qed

text \<open>
  A word of ten characters is cut into three pieces by a width of four. The word
  \<^verbatim>\<open>well-known\<close> is ten characters long and is cut after its hyphen by a width of ten,
  when it follows another word on the line.
\<close>

theorem word_wrap_keeps_words_counterexample:
  "break_word 4 (text_lines ''abcdefghij'') = Inr [''abcd'', ''efgh'', ''ij'']
   \<and> py_words (join_spaces [''abcd'', ''efgh'', ''ij'']) = [''abcd'', ''efgh'', ''ij'']
   \<and> concat (map py_words (text_lines ''abcdefghij'')) = [''abcdefghij'']
   \<and> break_word 10 (text_lines ''aaa well-known'') = Inr [''aaa well-'', ''known'']
   \<and> py_words (join_spaces [''aaa well-'', ''known'']) = [''aaa'', ''well-'', ''known'']
   \<and> concat (map py_words (text_lines ''aaa well-known'')) = [''aaa'', ''well-known'']"
  by code_simp

theorem word_wrap_keeps_words_witness:
  "break_word 8 (text_lines ''tel 555-1234 x'') = Inr [''tel'', ''555-1234'', ''x'']
   \<and> py_words (join_spaces [''tel'', ''555-1234'', ''x'']) = [''tel'', ''555-1234'', ''x'']
   \<and> concat (map py_words (text_lines ''tel 555-1234 x'')) = [''tel'', ''555-1234'', ''x'']
   \<and> break_word 3 [[CHR ''a'', CHR 0x09, CHR ''b'', CHR ''b'', CHR 0x0A, CHR ''c'']]
       = Inr [''a'', ''bb'', ''c'']
   \<and> py_words (join_spaces [''a'', ''bb'', ''c''])
       = py_words [CHR ''a'', CHR 0x09, CHR ''b'', CHR ''b'', CHR 0x0A, CHR ''c'']
   \<and> py_words (join_spaces [''abcd'', ''efgh'', ''ij'']) \<noteq> [''abcdefghij'']
   \<and> undivided ''tel 555-1234 x''
   \<and> chunks_fit 8 ''tel 555-1234 x''"
proof -
  let ?t = "[CHR ''a'', CHR 0x09, CHR ''b'', CHR ''b'', CHR 0x0A, CHR ''c'']"
  have tl: "text_lines ''tel 555-1234 x'' = [''tel 555-1234 x'']" by code_simp
  have b1: "break_word 8 [''tel 555-1234 x''] = Inr [''tel'', ''555-1234'', ''x'']" by code_simp
  have s1: "hyphens_safe ''tel 555-1234 x''" by code_simp
  have w1: "(\<forall>c\<in>set ''tel 555-1234 x''. py_isspace c \<longrightarrow> is_ws c)
     \<and> (\<forall>x\<in>set (py_words ''tel 555-1234 x''). int (length x) \<le> 8)" by code_simp
  have c1: "concat (map py_words [''tel 555-1234 x'']) = [''tel'', ''555-1234'', ''x'']"
    by code_simp
  have u1: "undivided ''tel 555-1234 x''"
    using word_wrap_keeps_words [of 8 "[]" "[]" "''tel 555-1234 x''"] s1 by blast
  have f1: "chunks_fit 8 ''tel 555-1234 x''"
    using word_wrap_keeps_words [of 8 "[]" "[]" "''tel 555-1234 x''"] u1 w1 by blast
  have h1: "\<forall>f\<in>set [''tel 555-1234 x'']. undivided f \<and> chunks_fit 8 f" using u1 f1 by simp
  have r1: "py_words (join_spaces [''tel'', ''555-1234'', ''x''])
      = concat (map py_words [''tel 555-1234 x''])"
    using word_wrap_keeps_words [of 8 "[''tel 555-1234 x'']" "[''tel'', ''555-1234'', ''x'']" "[]"]
      b1 h1 by blast
  have b2: "break_word 3 [?t] = Inr [''a'', ''bb'', ''c'']" by code_simp
  have "0 < (3::int)" by simp
  then have t2: "\<exists>res. break_word 3 [?t] = Inr res"
    using word_wrap_keeps_words [of 3 "[?t]" "[]" "[]"] by blast
  have h2: "\<forall>f\<in>set [?t]. undivided f \<and> chunks_fit 3 f" by code_simp
  have r2: "py_words (join_spaces [''a'', ''bb'', ''c'']) = concat (map py_words [?t])"
    using word_wrap_keeps_words [of 3 "[?t]" "[''a'', ''bb'', ''c'']" "[]"] b2 h2 by blast
  have b3: "break_word 4 [''abcdefghij''] = Inr [''abcd'', ''efgh'', ''ij'']" by code_simp
  have h3: "\<exists>f\<in>set [''abcdefghij'']. \<exists>x\<in>set (py_words f). 4 < int (length x)" by code_simp
  have c3: "concat (map py_words [''abcdefghij'']) = [''abcdefghij'']" by code_simp
  have r3: "py_words (join_spaces [''abcd'', ''efgh'', ''ij''])
       \<noteq> concat (map py_words [''abcdefghij''])"
    using word_wrap_keeps_words [of 4 "[''abcdefghij'']" "[''abcd'', ''efgh'', ''ij'']" "[]"]
      b3 h3 by blast
  have c2: "concat (map py_words [?t]) = py_words ?t" by simp
  show ?thesis
    unfolding tl using b1 r1 c1 b2 r2 c2 r3 c3 u1 f1 by (simp only: simp_thms)
qed

text \<open>
  Claim C6, as the code has it. For every caption without the line-break token, whose only
  whitespace among the characters that \<^verbatim>\<open>textwrap\<close> treats as whitespace is the space
  character (no tab and no line break), that is not empty after right-stripping and whose
  length is at most \<^verbatim>\<open>max_len\<close>, the word-preserving wrap returns exactly one line, the
  caption with its trailing whitespace removed (leading whitespace is kept).
\<close>

theorem short_caption_one_line:
  "\<not> contains line_break caption \<and> (\<forall>c\<in>set caption. is_ws c \<longrightarrow> c = CHR '' '')
   \<and> rstrip caption \<noteq> [] \<and> int (length caption) \<le> max_len
   \<longrightarrow> break_word max_len (text_lines caption) = Inr [rstrip caption]"
proof
  assume a: "\<not> contains line_break caption \<and> (\<forall>c\<in>set caption. is_ws c \<longrightarrow> c = CHR '' '')
   \<and> rstrip caption \<noteq> [] \<and> int (length caption) \<le> max_len"
  define s where "s = rstrip caption"
  have tl: "text_lines caption = [s]" using a by (simp add: text_lines_plain s_def)
  have "set s \<subseteq> set caption"
    unfolding s_def by (rule set_mono_prefix [OF rstrip_prefix])
  with a have 1: "\<forall>c\<in>set s. is_ws c \<longrightarrow> c = CHR '' ''" by blast
  have 2: "s \<noteq> []" using a by (simp add: s_def)
  have 3: "nonspace (last s)" using rstrip_last [of caption] 2 by (simp add: s_def)
  have 4: "int (length s) \<le> max_len" using a rstrip_length [of caption] by (simp add: s_def)
  from wrap_one_line [OF 1 2 3 4] show "break_word max_len (text_lines caption) = Inr [rstrip caption]"
    by (simp add: tl s_def)
qed

text \<open>
  The empty caption gives no line at all, and a short caption with the line-break token
  gives one line for each fragment.
\<close>

theorem short_caption_one_line_counterexample:
  "break_word 21 (text_lines '''') = Inr []
   \<and> break_word 21 (text_lines ''a#%b'') = Inr [''a'', ''b'']"
  by code_simp

theorem short_caption_one_line_witness:
  "break_word 21 (text_lines ''  Hello World  '') = Inr [''  Hello World'']"
proof -
  have h: "\<not> contains line_break ''  Hello World  ''
     \<and> (\<forall>c\<in>set ''  Hello World  ''. is_ws c \<longrightarrow> c = CHR '' '')
     \<and> rstrip ''  Hello World  '' \<noteq> [] \<and> int (length ''  Hello World  '') \<le> 21"
    by code_simp
  have r: "rstrip ''  Hello World  '' = ''  Hello World''" by code_simp
  from short_caption_one_line [rule_format, OF h] r show ?thesis by simp
qed

text \<open>
  Claim C8. Under both strategies an empty fragment, such as the one after a trailing
  line-break token, should contribute no line. The word-preserving strategy drops it, and so
  does \<^verbatim>\<open>chunk_str\<close> on the empty string; \<^verbatim>\<open>break_any\<close> does not call \<^verbatim>\<open>chunk_str\<close> for a fragment
  that fits and returns the empty fragment as an empty line, which then is a line of the
  record.
\<close>

theorem empty_fragment_kept_by_hard_break:
  "text_lines ''a#%'' = [''a'', '''']
   \<and> break_word 21 (text_lines ''a#%'') = Inr [''a'']
   \<and> break_any 21 (text_lines ''a#%'') = Inr [''a'', '''']
   \<and> chunk_str '''' 21 = Inr []
   \<and> map_sum id (map line_text \<circ> lines)
        (LabelData_init False ''24-06-01'' ''https://example.com'' ''a#%'' avery_5160)
      = Inr [''a'', ''24-06-01'']
   \<and> map_sum id (map line_text \<circ> lines)
        (LabelData_init True ''24-06-01'' ''https://example.com'' ''a#%'' avery_5160)
      = Inr [''a'', '''', ''24-06-01'']"
  by code_simp

subsection \<open>The input parser\<close>

text \<open>
  Claim C9. URL normalization maps the input \<^verbatim>\<open>example.com/path\<close> to
  \<^verbatim>\<open>https://example.com/path\<close>, leaves the input \<^verbatim>\<open>https://example.com\<close> unchanged and
  rejects the input \<^verbatim>\<open>not a url\<close> with the invalid-url error.
\<close>

theorem url_normalization_examples:
  "normalize_url ''example.com/path'' = Inr ''https://example.com/path''
   \<and> normalize_url ''https://example.com'' = Inr ''https://example.com''
   \<and> normalize_url ''not a url'' = Inl (InvalidUrl ''not a url'')"
  by code_simp



end
